theory Spec2Isabelle
  imports Main
begin

text \<open>
  A shallow embedding of \<open>src/tool/webqa-process-schemaorg.js\<close>: the classification of the
  schema.org type hierarchy, the resolution of property types, the construction of compound
  types, the synthesis of canonical phrases and the emission of query definitions.

  JavaScript objects used as dictionaries (\<open>typeHierarchy\<close>, \<open>properties\<close>, \<open>enums\<close>,
  canonical records, compound fields, \<open>queries\<close>) are association lists in enumeration
  order; a key is looked up with \<open>map_of\<close>. The names handled here are schema.org
  identifiers: they are ASCII, they are not array indices (which JavaScript would enumerate
  first) and they are not members of \<open>Object.prototype\<close>. A thrown exception is the
  \<open>Inl\<close> of a sum. Recursion that JavaScript bounds only by its call stack takes the
  available depth as its first argument and answers \<open>RangeError\<close> when it is used up.
\<close>

section \<open>Data model\<close>

datatype error = RangeError | TypeError | Error string

datatype annotation_value = String_value string | Boolean_value bool

type_synonym canonical = "(string \<times> string list) list"

datatype ttype =
    Time | Number | String | Boolean | Date | Any | Location | Currency
  | Entity string
  | Measure string
  | Array ttype
  | Enum "string list"
  | Compound string "(string \<times> ttype \<times> canonical \<times> (string \<times> annotation_value) list) list"

record propdef =
  types :: "string list"
  comment :: string

record typenode =
  extends :: "string list"
  properties :: "(string \<times> propdef) list"
  tcomment :: string
  isAction :: bool
  isEnum :: bool
  enumValues :: "string list"
  isItemList :: bool
  itemType :: string
  isStructSubType :: bool
  representAsStruct :: bool

type_synonym hierarchy = "(string \<times> typenode) list"

text \<open>
  The fields of \<open>SchemaProcessor\<close> that the resolver reads, and the three functions it
  imports from outside the file: \<open>clean\<close> and \<open>pluralize\<close> of \<open>lib/utils\<close> and the
  part-of-speech tagger \<open>posTag\<close> (one tag per token).
\<close>

record processor =
  className :: string
  manual :: bool
  always_base_canonical :: bool
  hasGeo :: bool
  wikidata_labels :: "(string \<times> string list) list"

definition prefix :: "processor \<Rightarrow> string" where
  "prefix this = className this @ '':''"

record library =
  clean :: "string \<Rightarrow> string"
  pluralize :: "string \<Rightarrow> string"
  posTag :: "string list \<Rightarrow> string list"

record argumentdef =
  arg_name :: string
  arg_type :: ttype
  arg_nl :: "canonical option"
  arg_impl :: "(string \<times> annotation_value) list"

record functiondef =
  fn_name :: string
  fn_extends :: "string list"
  fn_args :: "argumentdef list"
  fn_canonical :: string
  fn_confirmation :: string

section \<open>Strings\<close>

text \<open>The JavaScript string operations the processor uses, on ASCII strings.\<close>

definition toLowerChar :: "char \<Rightarrow> char" where
  "toLowerChar c =
     (case map_of (zip ''ABCDEFGHIJKLMNOPQRSTUVWXYZ'' ''abcdefghijklmnopqrstuvwxyz'') c of
        Some l \<Rightarrow> l
      | None \<Rightarrow> c)"

definition toLowerCase :: "string \<Rightarrow> string" where
  "toLowerCase s = map toLowerChar s"

definition startsWith :: "string \<Rightarrow> string \<Rightarrow> bool" where
  "startsWith s p = (take (length p) s = p)"

definition endsWith :: "string \<Rightarrow> string \<Rightarrow> bool" where
  "endsWith s suffix = (length suffix \<le> length s \<and> drop (length s - length suffix) s = suffix)"

text \<open>\<open>s.split(' ')\<close>: never empty, \<open>''.split(' ')\<close> is \<open>['']\<close>.\<close>

fun split :: "char \<Rightarrow> string \<Rightarrow> string list" where
  "split sep [] = [] # []"
| "split sep (c # cs) =
     (if c = sep then [] # split sep cs
      else case split sep cs of
             w # ws \<Rightarrow> (c # w) # ws
           | [] \<Rightarrow> [c] # [])"

text \<open>\<open>s.replace(' ', ' # ')\<close> replaces the first space only; \<open>s.replace(/ /g, '_')\<close> all of them.\<close>

fun replaceFirstSpace :: "string \<Rightarrow> string \<Rightarrow> string" where
  "replaceFirstSpace [] by = []"
| "replaceFirstSpace (c # cs) by = (if c = CHR '' '' then by @ cs else c # replaceFirstSpace cs by)"

definition replaceSpaces :: "string \<Rightarrow> char \<Rightarrow> string" where
  "replaceSpaces s by = map (\<lambda>c. if c = CHR '' '' then by else c) s"

text \<open>\<open>/^[a-z ]+$/.test(name)\<close>\<close>

definition lettersAndSpaces :: "string \<Rightarrow> bool" where
  "lettersAndSpaces name =
     (name \<noteq> [] \<and> list_all (\<lambda>c. c \<in> set ''abcdefghijklmnopqrstuvwxyz '') name)"

text \<open>\<open>/^an? /i.test(comment)\<close>\<close>

definition startsWithArticle :: "string \<Rightarrow> bool" where
  "startsWithArticle s =
     (startsWith (toLowerCase s) ''a '' \<or> startsWith (toLowerCase s) ''an '')"

text \<open>\<open>/word/i.test(propname)\<close> for a lower-case \<open>word\<close>\<close>

definition containsIgnoreCase :: "string \<Rightarrow> string \<Rightarrow> bool" where
  "containsIgnoreCase s word =
     list_ex (\<lambda>i. take (length word) (drop i (toLowerCase s)) = word) [0..<Suc (length s)]"

section \<open>Static tables\<close>

definition BUILTIN_TYPEMAP :: "(string \<times> ttype) list" where
  "BUILTIN_TYPEMAP =
    [(''Time'', Time), (''Number'', Number), (''Float'', Number), (''Integer'', Number),
     (''Text'', String), (''Boolean'', Boolean), (''DateTime'', Date), (''Date'', Date),
     (''DataType'', Any), (''URL'', Entity ''tt:url''),
     (''ImageObject'', Entity ''tt:picture''), (''Barcode'', Entity ''tt:picture''),
     (''Mass'', Measure ''kg''), (''Energy'', Measure ''kcal''),
     (''Distance'', Measure ''m''), (''Duration'', Measure ''ms''),
     (''GeoCoordinates'', Location), (''MonetaryAmount'', Currency),
     (''QuantitativeValue'', Any)]"

definition inBUILTIN :: "string \<Rightarrow> bool" where
  "inBUILTIN t = (map_of BUILTIN_TYPEMAP t \<noteq> None)"

definition KEYWORDS :: "string list" where
  "KEYWORDS =
    [''let'', ''now'', ''new'', ''as'', ''of'', ''in'', ''out'', ''req'', ''opt'', ''notify'',
     ''return'', ''join'', ''edge'', ''monitor'', ''class'', ''extends'', ''mixin'', ''this'',
     ''import'', ''null'', ''enum'', ''aggregate'', ''dataset'', ''oninput'', ''sort'', ''asc'',
     ''desc'', ''bookkeeping'', ''compute'', ''true'', ''false'']"

definition BLACKLISTED_PROPERTIES :: "string list" where
  "BLACKLISTED_PROPERTIES =
    [''sameAs'', ''affiliation'', ''mainEntityOfPage'', ''embedUrl'', ''itemReviewed'',
     ''bestRating'', ''worstRating'', ''reviewBody'', ''eligibleTransactionVolume'', ''addOn'',
     ''areaServed'', ''priceCurrency'']"

definition STRUCTURED_HIERARCHIES :: "string list" where
  "STRUCTURED_HIERARCHIES = [''StructuredValue'', ''Rating'', ''Offer'']"

definition NON_STRUCT_TYPES :: "string list" where
  "NON_STRUCT_TYPES = []"

definition PROPERTY_FORCE_ARRAY :: "string list" where
  "PROPERTY_FORCE_ARRAY = [''worksFor'', ''recipeCuisine'', ''recipeCategory'']"

definition PROPERTY_FORCE_NOT_ARRAY :: "string list" where
  "PROPERTY_FORCE_NOT_ARRAY = [''offers'']"

definition PROPERTY_TYPE_OVERRIDE :: "(string \<times> ttype) list" where
  "PROPERTY_TYPE_OVERRIDE =
    [(''telephone'', Entity ''tt:phone_number''), (''email'', Entity ''tt:email_address''),
     (''image'', Entity ''tt:picture''), (''logo'', Entity ''tt:picture''),
     (''checkinTime'', Time), (''checkoutTime'', Time), (''price'', Currency),
     (''weight'', Measure ''ms''), (''depth'', Measure ''m''), (''description'', String),
     (''addressCountry'', Entity ''tt:country''), (''addressRegion'', Entity ''tt:us_state''),
     (''video'', Entity ''org.schema:VideoObject''),
     (''publisher'', Entity ''org.schema:Organization''), (''recipeYield'', String)]"

definition PROPERTY_CANONICAL_OVERRIDE :: "(string \<times> canonical) list" where
  "PROPERTY_CANONICAL_OVERRIDE =
    [(''url'', [(''base'', [''url'', ''link''])]),
     (''name'', [(''base'', [''name'']), (''passive_verb'', [''called''])]),
     (''description'', [(''base'', [''description'', ''summary''])]),
     (''geo'', [(''base'', [''location'', ''address'']),
         (''passive_verb'', [''in #'', ''around #'', ''at #'', ''on #''])]),
     (''streetAddress'', [(''base'', [''street''])]),
     (''addressCountry'', [(''passive_verb'', [''in #'']), (''base'', [''country''])]),
     (''addressRegion'', [(''passive_verb'', [''in #'']), (''base'', [''state''])]),
     (''addressLocality'', [(''base'', [''city''])])]"

definition MANUAL_PROPERTY_CANONICAL_OVERRIDE :: "(string \<times> canonical) list" where
  "MANUAL_PROPERTY_CANONICAL_OVERRIDE =
    [(''datePublished'', [(''passive_verb'', [''published on #'', ''written on #'']),
        (''base'', [''date published''])]),
     (''ratingValue'', [(''passive_verb'', [''rated # star'']), (''base'', [''rating''])]),
     (''reviewRating'', [(''base'', [''rating''])]),
     (''telephone'', [(''base'', [''telephone'', ''phone number''])]),
     (''servesCuisine'', [(''adjective'', [''#'']),
         (''verb'', [''serves # cuisine'', ''serves # food'', ''offer # cuisine'',
           ''offer # food'', ''serves'', ''offers'']),
         (''property'', [''# cuisine'', ''# food'']), (''base'', [''cuisine'', ''food type''])]),
     (''amenityFeature'', [(''base'', [''amenity'', ''amenity feature'']),
         (''verb'', [''offers #'', ''offer #'', ''has #'', ''have #''])]),
     (''checkinTime'', [(''base'', [''checkin time'', ''check in time'', ''check-in time''])]),
     (''checkoutTime'', [(''base'', [''checkout time'', ''check out time'', ''check-out time''])]),
     (''alumniOf'', [(''base'', [''college degrees'', ''universities'', ''alma maters'']),
         (''reverse_property'', [''alumni of #'', ''alumnus of #'', ''alumna of #'', ''# alumnus'',
           ''# alumni'', ''# grad'', ''# graduate'']),
         (''verb'', [''went to #'', ''graduated from #'', ''attended #'', ''studied at #'']),
         (''passive_verb'', [''educated at #'', ''graduated from #''])]),
     (''award'', [(''base'', [''awards'']),
         (''reverse_property'', [''winner of #'', ''recipient of #'', ''# winner'', ''# awardee'',
           ''# recipient'', ''# holder'']),
         (''verb'', [''has the award #'', ''has received the # award'', ''won the award for #'',
           ''won the # award'', ''received the # award'', ''received the #'', ''won the #'',
           ''won #'', ''holds the award for #'', ''holds the # award''])]),
     (''affiliation'', [(''base'', [''affiliations'']), (''reverse_property'', [''member of #'']),
         (''passive_verb'', [''affiliated with #'', ''affiliated to #''])]),
     (''worksFor'', [(''base'', [''employers'']),
         (''reverse_property'', [''employee of #'', ''# employee'']),
         (''verb'', [''works for #'', ''works at #'', ''worked at #'', ''worked for #'']),
         (''passive_verb'', [''employed at #'', ''employed by #''])]),
     (''author'', [(''base'', [''author'', ''creator'']),
         (''passive_verb'', [''by'', ''made by'', ''written by'', ''created by'', ''authored by'',
           ''uploaded by'', ''submitted by''])]),
     (''publisher'', [(''base'', [''publisher'']),
         (''passive_verb'', [''by'', ''made by'', ''published by''])]),
     (''prepTime'', [(''verb'', [''takes # to prepare'', ''needs # to prepare'']),
         (''base'', [''prep time'', ''preparation time'', ''time to prep'', ''time to prepare''])]),
     (''cookTime'', [(''verb'', [''takes # to cook'', ''needs # to cook'']),
         (''base'', [''cook time'', ''cooking time'', ''time to cook''])]),
     (''totalTime'', [(''verb'', [''takes #'', ''requires #'', ''needs #'', ''uses #'',
           ''consumes #'']),
         (''base'', [''total time'', ''time in total'', ''time to make''])]),
     (''recipeYield'', [(''verb'', [''yields #'', ''feeds #'', ''produces #'', ''results in #'',
           ''is good for #'']),
         (''passive_verb'', [''yielding #'']), (''base'', [''yield amount'', ''yield size''])]),
     (''recipeCategory'', [(''base'', [''categories''])]),
     (''recipeIngredient'', [(''verb'', [''contains'', ''uses'', ''has'']),
         (''passive_verb'', [''containing'', ''using'']), (''base'', [''ingredients''])]),
     (''recipeInstructions'', [(''base'', [''instructions''])]),
     (''recipeCuisines'', [(''adjective'', [''#'']), (''verb'', [''belongs to the # cuisine'']),
         (''base'', [''cuisines'', ''cuisine''])]),
     (''reviewBody'', [(''base'', [''body'', ''text'', ''content''])]),
     (''saturatedFatContent'', [(''base'', [''saturated fat content'', ''saturated fat amount'',
           ''saturated fat'', ''trans fat''])]),
     (''mpn'', [(''base'', [''manufacturer part number''])])]"

definition PROPERTIES_NO_FILTER :: "string list" where
  "PROPERTIES_NO_FILTER = [''name'', ''priceRange'', ''gtin13'', ''productID'', ''mpn'']"

definition PROPERTIES_DROP_WITH_GEO :: "string list" where
  "PROPERTIES_DROP_WITH_GEO = [''streetAddress'', ''addressLocality'']"

definition STRUCT_INCLUDE_THING_PROPERTIES :: "string list" where
  "STRUCT_INCLUDE_THING_PROPERTIES = [''LocationFeatureSpecification'']"

definition STRING_FILE_OVERRIDES :: "(string \<times> string) list" where
  "STRING_FILE_OVERRIDES =
    [(''org.schema.Restaurant:Restaurant_name'', ''com.yelp:restaurant_names''),
     (''org.schema.Person:Person_name'', ''tt:person_full_name''),
     (''org.schema.Person:Person_alumniOf'', ''tt:university_names''),
     (''org.schema.Person:Person_worksFor'', ''tt:company_name''),
     (''org.schema.Hotel:Hotel_name'', ''tt:hotel_name'')]"

section \<open>List wrappers and string values\<close>

fun getItemTypeFrom :: "string list \<Rightarrow> string \<Rightarrow> hierarchy \<Rightarrow> string" where
  "getItemTypeFrom [] typename th = ''Thing''"
| "getItemTypeFrom (suffix # rest) typename th =
     (if endsWith typename suffix then
        (let itemname = take (length typename - length suffix) typename
         in if map_of th itemname \<noteq> None then itemname else ''Thing'')
      else getItemTypeFrom rest typename th)"

definition getItemType :: "string \<Rightarrow> hierarchy \<Rightarrow> string" where
  "getItemType typename th =
     getItemTypeFrom [''List'', ''Collection'', ''Section'', ''Catalog''] typename th"

definition setAnnotation ::
  "string \<Rightarrow> annotation_value \<Rightarrow> (string \<times> annotation_value) list \<Rightarrow> (string \<times> annotation_value) list" where
  "setAnnotation key v annotations =
     (if map_of annotations key = None then annotations @ [(key, v)]
      else map (\<lambda>(k, old). if k = key then (k, v) else (k, old)) annotations)"

text \<open>
  \<open>recursiveAddStringValues(arg, fileId)\<close> writes the \<open>string_values\<close> annotation of \<open>arg\<close>
  and of the fields of a compound type; the model returns the type and the annotations.
\<close>

function recursiveAddStringValues ::
  "ttype \<Rightarrow> (string \<times> annotation_value) list \<Rightarrow> string \<Rightarrow> ttype \<times> (string \<times> annotation_value) list"
where
  "recursiveAddStringValues (Array elem) annotations fileId =
     (case recursiveAddStringValues elem annotations fileId of
        (elem', annotations') \<Rightarrow> (Array elem', annotations'))"
| "recursiveAddStringValues (Entity e) annotations fileId =
     (case map_of STRING_FILE_OVERRIDES fileId of
        Some v \<Rightarrow> (Entity e, setAnnotation ''string_values'' (String_value v) annotations)
      | None \<Rightarrow> (Entity e, annotations))"
| "recursiveAddStringValues String annotations fileId =
     (String, setAnnotation ''string_values''
        (String_value (case map_of STRING_FILE_OVERRIDES fileId of Some v \<Rightarrow> v | None \<Rightarrow> fileId))
        annotations)"
| "recursiveAddStringValues (Compound n flds) annotations fileId =
     (Compound n
        (map (\<lambda>f. if CHR ''.'' \<in> set (fst f) then f
                  else case recursiveAddStringValues (fst (snd f)) (snd (snd (snd f)))
                              (fileId @ ''_'' @ fst f) of
                         (t', annotations') \<Rightarrow> (fst f, t', fst (snd (snd f)), annotations'))
           flds),
      annotations)"
| "recursiveAddStringValues Time annotations fileId = (Time, annotations)"
| "recursiveAddStringValues Number annotations fileId = (Number, annotations)"
| "recursiveAddStringValues Boolean annotations fileId = (Boolean, annotations)"
| "recursiveAddStringValues Date annotations fileId = (Date, annotations)"
| "recursiveAddStringValues Any annotations fileId = (Any, annotations)"
| "recursiveAddStringValues Location annotations fileId = (Location, annotations)"
| "recursiveAddStringValues Currency annotations fileId = (Currency, annotations)"
| "recursiveAddStringValues (Measure u) annotations fileId = (Measure u, annotations)"
| "recursiveAddStringValues (Enum vs) annotations fileId = (Enum vs, annotations)"
  by pat_completeness auto

termination recursiveAddStringValues
  apply (relation "measure (\<lambda>(t, annotations, fileId). size t)")
  apply simp
  apply simp
  subgoal for n flds annotations fileId f
    apply (cases f)
    apply (auto simp: less_Suc_eq_le)
    apply (rule size_list_estimation')
    apply assumption
    apply simp
    done
  done

section \<open>Canonical phrases\<close>

definition getKey :: "canonical \<Rightarrow> string \<Rightarrow> string list" where
  "getKey canonical key = (case map_of canonical key of Some xs \<Rightarrow> xs | None \<Rightarrow> [])"

definition setKey :: "string \<Rightarrow> string list \<Rightarrow> canonical \<Rightarrow> canonical" where
  "setKey key v canonical =
     (if map_of canonical key = None then canonical @ [(key, v)]
      else map (\<lambda>(k, old). if k = key then (k, v) else (k, old)) canonical)"

text \<open>\<open>canonical.key = (canonical.key || []).concat(items)\<close>\<close>

definition concatKey :: "string \<Rightarrow> string list \<Rightarrow> canonical \<Rightarrow> canonical" where
  "concatKey key items canonical = setKey key (getKey canonical key @ items) canonical"

definition isArray :: "ttype \<Rightarrow> bool" where
  "isArray t = (case t of Array _ \<Rightarrow> True | _ \<Rightarrow> False)"

definition isMeasure :: "ttype \<Rightarrow> bool" where
  "isMeasure t = (case t of Measure _ \<Rightarrow> True | _ \<Rightarrow> False)"

definition isBoolean :: "ttype \<Rightarrow> bool" where
  "isBoolean t = (case t of Boolean \<Rightarrow> True | _ \<Rightarrow> False)"

definition isEnumType :: "ttype \<Rightarrow> bool" where
  "isEnumType t = (case t of Enum _ \<Rightarrow> True | _ \<Rightarrow> False)"

definition nounTags :: "string list" where
  "nounTags = [''NN'', ''NNS'', ''NNP'', ''NNPS'']"

text \<open>\<open>list.includes(tags[i])\<close>; an index out of range reads \<open>undefined\<close>, which no list includes.\<close>

definition tagIn :: "string list \<Rightarrow> string list \<Rightarrow> nat \<Rightarrow> bool" where
  "tagIn list tags i = (i < length tags \<and> tags ! i \<in> set list)"

definition lastTagIn :: "string list \<Rightarrow> string list \<Rightarrow> bool" where
  "lastTagIn list tags = (tags \<noteq> [] \<and> last tags \<in> set list)"

text \<open>
  \<open>addCanonical(canonical, name, ptype)\<close> mutates \<open>canonical\<close>; the model returns it.
  \<open>name.split(' ')[1]\<close> is \<open>undefined\<close> when \<open>name\<close> has no space, which a tagger that
  gives one tag per token excludes; \<open>undefinedString\<close> stands for it.
\<close>

definition undefinedString :: string where
  "undefinedString = ''undefined''"

definition addCanonical :: "library \<Rightarrow> canonical \<Rightarrow> string \<Rightarrow> ttype \<Rightarrow> canonical" where
  "addCanonical lib canonical name0 ptype =
     (let name1 = toLowerCase name0 in
      if \<not> lettersAndSpaces name1 then canonical
      else
        let name = (if isArray ptype then pluralize lib name1 else name1) in
        if endsWith name '' content'' \<and> isMeasure ptype then
          (let stem = take (length name - length '' content'') name;
               base = [stem @ '' content'', stem, stem @ '' amount''];
               verb = [''contains #'' @ replaceSpaces stem (CHR ''_'')]
           in concatKey ''base'' base (concatKey ''verb'' verb canonical))
        else if startsWith name ''has '' then
          concatKey ''base'' [drop (length ''has '') name] canonical
        else if startsWith name ''is '' then
          (let rest = drop (length ''is '') name;
               tags = posTag lib (split (CHR '' '') rest)
           in if lastTagIn nounTags tags \<or> endsWith rest '' of'' then
                concatKey ''reverse_property'' [rest] canonical
              else if tagIn [''VBN'', ''JJ'', ''JJR''] tags 0 then
                concatKey ''passive_verb'' [rest] canonical
              else canonical)
        else
          (let tags = posTag lib (split (CHR '' '') name) in
           if tagIn [''VBP'', ''VBZ'', ''VBD''] tags 0 then
             (if length tags = 2 \<and> tagIn nounTags tags 1 then
                concatKey ''base'' [case split (CHR '' '') name of _ # w # _ \<Rightarrow> w | _ \<Rightarrow> undefinedString]
                  (concatKey ''verb'' [replaceFirstSpace name '' # ''] canonical)
              else concatKey ''verb'' [name] canonical)
           else if endsWith name '' of'' then
             concatKey ''reverse_property'' [name] canonical
           else if tagIn [''VBN'', ''VBG'', ''JJ'', ''JJR''] tags 0 \<and> \<not> lastTagIn nounTags tags then
             concatKey ''passive_verb'' [name] canonical
           else concatKey ''base'' [name] canonical))"

definition cleanName :: "library \<Rightarrow> string \<Rightarrow> string" where
  "cleanName lib name =
     (let cleaned = clean lib name in
      if endsWith cleaned '' value'' then take (length cleaned - length '' value'') cleaned
      else cleaned)"

text \<open>\<open>order\<close> is a \<open>Set\<close>: it keeps insertion order and \<open>add\<close> of a member changes nothing.\<close>

definition setAdd :: "'a \<Rightarrow> 'a list \<Rightarrow> 'a list" where
  "setAdd x xs = (if x \<in> set xs then xs else xs @ [x])"

text \<open>\<open>[...new Set(candidates)]\<close>: first occurrences, in order.\<close>

definition newSet :: "'a list \<Rightarrow> 'a list" where
  "newSet xs = fold setAdd xs []"

text \<open>The loop \<open>for (let candidate of [...new Set(candidates)]) this.addCanonical(...)\<close>.\<close>

definition addCandidates :: "library \<Rightarrow> string list \<Rightarrow> ttype \<Rightarrow> canonical" where
  "addCandidates lib candidates ptype =
     fold (\<lambda>candidate canonical. addCanonical lib canonical candidate ptype)
       (newSet candidates) []"

text \<open>The candidate phrases: the external labels of the property if there are any, else its cleaned name.\<close>

definition candidatePhrases :: "processor \<Rightarrow> library \<Rightarrow> string \<Rightarrow> string list" where
  "candidatePhrases this lib name =
     (case map_of (wikidata_labels this) name of
        Some labels \<Rightarrow> labels
      | None \<Rightarrow> [cleanName lib name])"

definition makeArgCanonical :: "processor \<Rightarrow> library \<Rightarrow> string \<Rightarrow> ttype \<Rightarrow> canonical" where
  "makeArgCanonical this lib name ptype =
     (case map_of PROPERTY_CANONICAL_OVERRIDE name of
        Some override \<Rightarrow> override
      | None \<Rightarrow>
     (case (if manual this then map_of MANUAL_PROPERTY_CANONICAL_OVERRIDE name else None) of
        Some override \<Rightarrow> override
      | None \<Rightarrow>
          let canonical = addCandidates lib (candidatePhrases this lib name) ptype
          in if map_of canonical ''base'' = None \<and> always_base_canonical this
             then setKey ''base'' [name] canonical
             else canonical))"

section \<open>Property types and compound types\<close>

text \<open>
  The score of one candidate type in \<open>getBestPropertyType\<close>. The fifth test reads
  \<open>typeHierarchy.isItemList\<close>, the entry of the hierarchy named \<open>isItemList\<close>.
\<close>

definition typeScore :: "hierarchy \<Rightarrow> string \<Rightarrow> int" where
  "typeScore th t =
     (if (case map_of th t of Some td \<Rightarrow> isEnum td | None \<Rightarrow> False) then 5
      else if t = ''Text'' then 2
      else if inBUILTIN t then 4
      else case map_of th t of
             None \<Rightarrow> - 1
           | Some td \<Rightarrow>
               if map_of th ''isItemList'' \<noteq> None then 0
               else if representAsStruct td then 3
               else 1)"

text \<open>
  \<open>best\<close> and \<open>bestScore\<close> change together: \<open>None\<close> is the initial state
  (\<open>undefined\<close>, \<open>-Infinity\<close>), which any score beats.
\<close>

fun bestType :: "hierarchy \<Rightarrow> string list \<Rightarrow> (string \<times> int) option \<Rightarrow> (string \<times> int) option" where
  "bestType th [] best = best"
| "bestType th (t # ts) best =
     (let score = typeScore th t in
      if (case best of None \<Rightarrow> True | Some (b, bestScore) \<Rightarrow> score > bestScore)
      then bestType th ts (Some (t, score))
      else bestType th ts best)"

definition isItemListType :: "hierarchy \<Rightarrow> string \<Rightarrow> bool" where
  "isItemListType th t = (case map_of th t of None \<Rightarrow> False | Some td \<Rightarrow> isItemList td)"

definition arrayHeuristic :: "hierarchy \<Rightarrow> string \<Rightarrow> propdef \<Rightarrow> bool" where
  "arrayHeuristic th propname property =
     (let a1 = list_ex (isItemListType th) (types property);
          a2 = (if startsWithArticle (comment property) then True else a1);
          a3 = (if propname \<in> set PROPERTY_FORCE_ARRAY then True else a2)
      in if propname \<in> set PROPERTY_FORCE_NOT_ARRAY then False else a3)"

text \<open>
  The tail of \<open>getBestPropertyType\<close>: the array flag is cleared when the chosen type is a
  list wrapper and when the resolved type is a boolean or an enumeration; if it is still
  set the type is wrapped.
\<close>

definition wrapArray :: "hierarchy \<Rightarrow> string \<Rightarrow> propdef \<Rightarrow> string \<Rightarrow> ttype \<Rightarrow> ttype" where
  "wrapArray th propname property best tttype =
     (let a1 = arrayHeuristic th propname property;
          a2 = (if isItemListType th best then False else a1);
          a3 = (if isBoolean tttype \<or> isEnumType tttype then False else a2)
      in if a3 then Array tttype else tttype)"

text \<open>The branch for \<open>best === 'QuantitativeValue'\<close>.\<close>

definition quantitativeValueType :: "string \<Rightarrow> ttype" where
  "quantitativeValueType propname =
     (if containsIgnoreCase propname ''number'' \<or> containsIgnoreCase propname ''level''
         \<or> containsIgnoreCase propname ''quantity''
      then Number
      else if containsIgnoreCase propname ''duration'' then Measure ''ms''
      else Number)"

text \<open>\<open>recursiveCollectProperties\<close> of \<open>makeCompoundType\<close>; \<open>allproperties\<close> is a \<open>Map\<close>.\<close>

fun collectOwn :: "(string \<times> propdef) list \<Rightarrow> (string \<times> propdef) list \<Rightarrow> (string \<times> propdef) list" where
  "collectOwn [] allproperties = allproperties"
| "collectOwn ((propertyname, propertydef) # rest) allproperties =
     (if map_of allproperties propertyname \<noteq> None then collectOwn rest allproperties
      else collectOwn rest (allproperties @ [(propertyname, propertydef)]))"

fun recursiveCollectProperties ::
    "nat \<Rightarrow> hierarchy \<Rightarrow> string \<Rightarrow> string \<Rightarrow> (string \<times> propdef) list
      \<Rightarrow> error + (string \<times> propdef) list"
  and recursiveCollectExtends ::
    "nat \<Rightarrow> hierarchy \<Rightarrow> string \<Rightarrow> string list \<Rightarrow> (string \<times> propdef) list
      \<Rightarrow> error + (string \<times> propdef) list"
where
  "recursiveCollectProperties 0 th startingTypename typename allproperties = Inl RangeError"
| "recursiveCollectProperties (Suc depth) th startingTypename typename allproperties =
     (case map_of th typename of
        None \<Rightarrow> Inr allproperties
      | Some td \<Rightarrow>
          if startingTypename \<notin> set STRUCT_INCLUDE_THING_PROPERTIES \<and> \<not> isStructSubType td
          then Inr allproperties
          else
            let collected = collectOwn (properties td) allproperties in
            if startingTypename \<notin> set STRUCT_INCLUDE_THING_PROPERTIES
               \<and> typename \<in> set STRUCTURED_HIERARCHIES
            then Inr collected
            else recursiveCollectExtends depth th startingTypename (extends td) collected)"
| "recursiveCollectExtends depth th startingTypename [] allproperties = Inr allproperties"
| "recursiveCollectExtends depth th startingTypename (e # es) allproperties =
     (case recursiveCollectProperties depth th startingTypename e allproperties of
        Inl err \<Rightarrow> Inl err
      | Inr collected \<Rightarrow> recursiveCollectExtends depth th startingTypename es collected)"

text \<open>The \<open>impl\<close> annotations of a compound field.\<close>

definition fieldAnnotation :: "processor \<Rightarrow> string \<Rightarrow> string \<Rightarrow> (string \<times> annotation_value) list" where
  "fieldAnnotation this propertyname schemaOrgType =
     [(''org_schema_type'', String_value schemaOrgType)]
     @ (if propertyname \<in> set PROPERTIES_NO_FILTER then [(''filterable'', Boolean_value False)]
        else if hasGeo this \<and> propertyname \<in> set PROPERTIES_DROP_WITH_GEO
        then [(''filterable'', Boolean_value False), (''drop'', Boolean_value True)]
        else [])"

text \<open>
  \<open>typeToThingTalk\<close>, \<open>getBestPropertyType\<close> and \<open>makeCompoundType\<close> call each other; a
  struct type that contains itself through inherited properties recurses until the stack
  is exhausted. The first argument bounds the nesting of \<open>typeToThingTalk\<close> calls.
  \<open>compoundFields\<close> is the loop over \<open>allproperties\<close>; \<open>anyfield\<close> is true exactly when it
  stored a field.
\<close>

function (sequential) typeToThingTalk :: "nat \<Rightarrow> processor \<Rightarrow> library \<Rightarrow> hierarchy \<Rightarrow> string \<Rightarrow> error + ttype"
  and getBestPropertyType ::
    "nat \<Rightarrow> processor \<Rightarrow> library \<Rightarrow> hierarchy \<Rightarrow> string \<Rightarrow> propdef
      \<Rightarrow> error + (string option \<times> ttype option)"
  and makeCompoundType :: "nat \<Rightarrow> processor \<Rightarrow> library \<Rightarrow> hierarchy \<Rightarrow> string \<Rightarrow> error + ttype"
  and compoundFields ::
    "nat \<Rightarrow> processor \<Rightarrow> library \<Rightarrow> hierarchy \<Rightarrow> (string \<times> propdef) list
      \<Rightarrow> error + (string \<times> ttype \<times> canonical \<times> (string \<times> annotation_value) list) list"
where
  "typeToThingTalk 0 this lib th typename = Inl RangeError"
| "typeToThingTalk (Suc depth) this lib th typename =
     (case map_of BUILTIN_TYPEMAP typename of
        Some t \<Rightarrow> Inr t
      | None \<Rightarrow>
     (case map_of th typename of
        None \<Rightarrow> Inl TypeError
      | Some td \<Rightarrow>
          if isItemList td then
            (case typeToThingTalk depth this lib th (itemType td) of
               Inl err \<Rightarrow> Inl err
             | Inr elem \<Rightarrow> Inr (Array elem))
          else if isEnum td \<and> length (enumValues td) > 0 then Inr (Enum (enumValues td))
          else if representAsStruct td then makeCompoundType depth this lib th typename
          else Inr (Entity (prefix this @ typename))))"
| "getBestPropertyType depth this lib th propname property =
     (if propname \<in> set BLACKLISTED_PROPERTIES then Inr (None, None)
      else case bestType th (types property) None of
             None \<Rightarrow> Inr (None, None)
           | Some (best, bestScore) \<Rightarrow>
               if bestScore < 0 then Inr (None, None)
               else case map_of PROPERTY_TYPE_OVERRIDE propname of
                      Some t \<Rightarrow> Inr (Some best, Some t)
                    | None \<Rightarrow>
                        if best = ''QuantitativeValue''
                        then Inr (Some best, Some (quantitativeValueType propname))
                        else case typeToThingTalk depth this lib th best of
                               Inl err \<Rightarrow> Inl err
                             | Inr tttype \<Rightarrow>
                                 Inr (Some best, Some (wrapArray th propname property best tttype)))"
| "makeCompoundType depth this lib th startingTypename =
     (case recursiveCollectProperties depth th startingTypename startingTypename [] of
        Inl err \<Rightarrow> Inl err
      | Inr allproperties \<Rightarrow>
     (case compoundFields depth this lib th allproperties of
        Inl err \<Rightarrow> Inl err
      | Inr flds \<Rightarrow>
          if flds = [] then Inl (Error (''Struct type '' @ startingTypename @ '' has no fields''))
          else Inr (Compound startingTypename flds)))"
| "compoundFields depth this lib th [] = Inr []"
| "compoundFields depth this lib th (p # rest) =
     (case getBestPropertyType depth this lib th (fst p) (snd p) of
        Inl err \<Rightarrow> Inl err
      | Inr (schemaOrgType, ttType) \<Rightarrow>
     (case ttType of
        None \<Rightarrow> compoundFields depth this lib th rest
      | Some t \<Rightarrow>
     (case compoundFields depth this lib th rest of
        Inl err \<Rightarrow> Inl err
      | Inr flds \<Rightarrow>
          Inr ((fst p, t, makeArgCanonical this lib (fst p) t,
                fieldAnnotation this (fst p) (case schemaOrgType of Some s \<Rightarrow> s | None \<Rightarrow> []))
               # flds))))"
  by pat_completeness auto

termination typeToThingTalk
proof (relation "measures
    [\<lambda>x. case x of
        Inl (Inl (depth, _)) \<Rightarrow> depth
      | Inl (Inr (depth, _)) \<Rightarrow> depth
      | Inr (Inl (depth, _)) \<Rightarrow> depth
      | Inr (Inr (depth, _)) \<Rightarrow> depth,
     \<lambda>x. case x of
        Inl (Inl _) \<Rightarrow> 0
      | Inl (Inr _) \<Rightarrow> 1
      | Inr (Inl _) \<Rightarrow> 3
      | Inr (Inr _) \<Rightarrow> (2::nat),
     \<lambda>x. case x of
        Inr (Inr (depth, this, lib, th, ps)) \<Rightarrow> length ps
      | _ \<Rightarrow> 0]", goal_cases)
qed simp_all

section \<open>Classification\<close>

text \<open>The object literal of \<open>ensureType\<close>; flags not yet assigned are falsy.\<close>

definition newType :: typenode where
  "newType = \<lparr>extends = [], properties = [], tcomment = [], isAction = False, isEnum = False,
     enumValues = [], isItemList = False, itemType = [], isStructSubType = False,
     representAsStruct = False\<rparr>"

text \<open>
  \<open>isSubClass\<close> recurses along \<open>extends\<close> with no visited set, so on a cyclic hierarchy it
  exhausts the call stack. The first argument bounds the depth of nested calls; running
  out of it is the \<open>RangeError\<close> of the engine.
\<close>

fun isSubClass :: "nat \<Rightarrow> hierarchy \<Rightarrow> string \<Rightarrow> string \<Rightarrow> error + bool"
  and isSubClassExtends :: "nat \<Rightarrow> hierarchy \<Rightarrow> string list \<Rightarrow> string \<Rightarrow> error + bool"
where
  "isSubClass 0 th typename subtypeof = Inl RangeError"
| "isSubClass (Suc depth) th typename subtypeof =
     (case map_of th typename of
        None \<Rightarrow> Inl TypeError
      | Some td \<Rightarrow> isSubClassExtends depth th (extends td) subtypeof)"
| "isSubClassExtends depth th [] subtypeof = Inr False"
| "isSubClassExtends depth th (e # es) subtypeof =
     (if e = subtypeof then Inr True
      else if map_of th e = None then isSubClassExtends depth th es subtypeof
      else case isSubClass depth th e subtypeof of
             Inl err \<Rightarrow> Inl err
           | Inr found \<Rightarrow> if found then Inr True else isSubClassExtends depth th es subtypeof)"

definition updateType :: "string \<Rightarrow> (typenode \<Rightarrow> typenode) \<Rightarrow> hierarchy \<Rightarrow> hierarchy" where
  "updateType typename f th = map (\<lambda>(n, td). if n = typename then (n, f td) else (n, td)) th"

text \<open>\<open>for (let structBase of STRUCTURED_HIERARCHIES) if (isSubClass(type, structBase)) ... break\<close>\<close>

fun isSubClassOfAny :: "nat \<Rightarrow> hierarchy \<Rightarrow> string \<Rightarrow> string list \<Rightarrow> error + bool" where
  "isSubClassOfAny depth th type [] = Inr False"
| "isSubClassOfAny depth th type (structBase # rest) =
     (case isSubClass depth th type structBase of
        Inl err \<Rightarrow> Inl err
      | Inr found \<Rightarrow> if found then Inr True else isSubClassOfAny depth th type rest)"

text \<open>One iteration of the flag-assigning loop of \<open>run\<close>; \<open>enums\<close> maps a type to its declared values.\<close>

definition classifyType ::
  "nat \<Rightarrow> (string \<times> string list) list \<Rightarrow> string \<Rightarrow> hierarchy \<Rightarrow> error + hierarchy" where
  "classifyType depth enums type th =
     (case isSubClass depth th type ''Action'' of
        Inl err \<Rightarrow> Inl err
      | Inr action \<Rightarrow>
     (case (if map_of enums type \<noteq> None then Inr True
            else isSubClass depth th type ''Enumeration'') of
        Inl err \<Rightarrow> Inl err
      | Inr enum \<Rightarrow>
     (case isSubClass depth th type ''ItemList'' of
        Inl err \<Rightarrow> Inl err
      | Inr itemList \<Rightarrow>
     (case (if type \<in> set STRUCTURED_HIERARCHIES then Inr True
            else isSubClassOfAny depth th type STRUCTURED_HIERARCHIES) of
        Inl err \<Rightarrow> Inl err
      | Inr struct \<Rightarrow>
          Inr (updateType type (\<lambda>td.
            td\<lparr>isAction := action,
               isEnum := enum,
               enumValues := (if enum then (case map_of enums type of Some vs \<Rightarrow> vs | None \<Rightarrow> [])
                              else enumValues td),
               isItemList := itemList,
               itemType := (if itemList then getItemType type th else itemType td),
               isStructSubType :=
                 (if type \<in> set NON_STRUCT_TYPES then False
                  else if struct then True else isStructSubType td),
               representAsStruct :=
                 (if type \<in> set NON_STRUCT_TYPES then False
                  else if struct then True else representAsStruct td)\<rparr>) th)))))"

fun classifyTypes ::
  "nat \<Rightarrow> (string \<times> string list) list \<Rightarrow> string list \<Rightarrow> hierarchy \<Rightarrow> error + hierarchy" where
  "classifyTypes depth enums [] th = Inr th"
| "classifyTypes depth enums (type # rest) th =
     (case classifyType depth enums type th of
        Inl err \<Rightarrow> Inl err
      | Inr th' \<Rightarrow> classifyTypes depth enums rest th')"

section \<open>Cycle detection\<close>

definition setNonStruct :: "string \<Rightarrow> hierarchy \<Rightarrow> hierarchy" where
  "setNonStruct typename th =
     map (\<lambda>(n, td). if n = typename then (n, td\<lparr>representAsStruct := False\<rparr>) else (n, td)) th"

text \<open>\<open>typeHierarchy[type] && typeHierarchy[type].representAsStruct\<close>\<close>

definition structTarget :: "hierarchy \<Rightarrow> string \<Rightarrow> bool" where
  "structTarget th t = (case map_of th t of None \<Rightarrow> False | Some td \<Rightarrow> representAsStruct td)"

text \<open>
  \<open>findCycle(typename, lookfor, visited)\<close>: the \<open>visited\<close> set is mutated in place, so
  the model returns it beside the answer. Reading \<open>typeHierarchy[typename].properties\<close>
  of a name that is not in the hierarchy throws a \<open>TypeError\<close>. The \<open>cycle\<close> array only
  feeds the diagnostic message and is left out.
\<close>

function findCycle :: "hierarchy \<Rightarrow> string \<Rightarrow> string \<Rightarrow> string set \<Rightarrow> error + bool \<times> string set"
  and findCycleProps :: "hierarchy \<Rightarrow> string \<Rightarrow> (string \<times> propdef) list \<Rightarrow> string set
      \<Rightarrow> error + bool \<times> string set"
  and findCycleTypes :: "hierarchy \<Rightarrow> string \<Rightarrow> string list \<Rightarrow> string set
      \<Rightarrow> error + bool \<times> string set"
where
  "findCycle th typename lookfor visited =
     (if typename \<in> visited then Inr (typename = lookfor, visited)
      else case map_of th typename of
             None \<Rightarrow> Inl TypeError
           | Some td \<Rightarrow> findCycleProps th lookfor (properties td) (insert typename visited))"
| "findCycleProps th lookfor [] visited = Inr (False, visited)"
| "findCycleProps th lookfor (p # ps) visited =
     (case findCycleTypes th lookfor (types (snd p)) visited of
        Inl e \<Rightarrow> Inl e
      | Inr (found, visited') \<Rightarrow>
          if found then Inr (True, visited') else findCycleProps th lookfor ps visited')"
| "findCycleTypes th lookfor [] visited = Inr (False, visited)"
| "findCycleTypes th lookfor (t # ts) visited =
     (if inBUILTIN t then findCycleTypes th lookfor ts visited
      else if \<not> structTarget th t then findCycleTypes th lookfor ts visited
      else case findCycle th t lookfor visited of
             Inl e \<Rightarrow> Inl e
           | Inr (found, visited') \<Rightarrow>
               if found then Inr (True, visited') else findCycleTypes th lookfor ts visited')"
  by pat_completeness auto

lemma findCycle_visited_mono_dom:
  "findCycle_findCycleProps_findCycleTypes_dom (Inl (th, typename, lookfor, visited)) \<Longrightarrow>
     findCycle th typename lookfor visited = Inr (b, v') \<Longrightarrow> visited \<subseteq> v'"
  "findCycle_findCycleProps_findCycleTypes_dom (Inr (Inl (th, lookfor, ps, visited))) \<Longrightarrow>
     findCycleProps th lookfor ps visited = Inr (b, v') \<Longrightarrow> visited \<subseteq> v'"
  "findCycle_findCycleProps_findCycleTypes_dom (Inr (Inr (th, lookfor, ts, visited))) \<Longrightarrow>
     findCycleTypes th lookfor ts visited = Inr (b, v') \<Longrightarrow> visited \<subseteq> v'"
proof (induction th typename lookfor visited and th lookfor ps visited and th lookfor ts visited
    arbitrary: b v' and b v' and b v'
    rule: findCycle_findCycleProps_findCycleTypes.pinduct)
  case (1 th typename lookfor visited)
  then show ?case
    by (auto simp: findCycle.psimps split: if_splits option.splits)
next
  case (2 th lookfor visited)
  then show ?case by (simp add: findCycleProps.psimps)
next
  case (3 th lookfor p ps visited)
  then show ?case
    by (fastforce simp: findCycleProps.psimps split: sum.splits prod.splits if_splits)
next
  case (4 th lookfor visited)
  then show ?case by (simp add: findCycleTypes.psimps)
next
  case (5 th lookfor t ts visited)
  then show ?case
    by (fastforce simp: findCycleTypes.psimps split: sum.splits prod.splits if_splits)
qed

termination findCycle
proof (relation "measures
    [\<lambda>x. case x of
        Inl (th, t, l, v) \<Rightarrow> card (fst ` set th - v)
      | Inr (Inl (th, l, ps, v)) \<Rightarrow> card (fst ` set th - v)
      | Inr (Inr (th, l, ts, v)) \<Rightarrow> card (fst ` set th - v),
     \<lambda>x. case x of Inl _ \<Rightarrow> 0 | Inr (Inl _) \<Rightarrow> 2 | Inr (Inr _) \<Rightarrow> (1::nat),
     \<lambda>x. case x of
        Inl _ \<Rightarrow> 0
      | Inr (Inl (th, l, ps, v)) \<Rightarrow> length ps
      | Inr (Inr (th, l, ts, v)) \<Rightarrow> length ts]", goal_cases)
  case 1
  show ?case by simp
next
  case (2 th typename lookfor visited td)
  then have "typename \<in> fst ` set th - visited"
    by (auto dest: map_of_SomeD intro: rev_image_eqI)
  then have "card (fst ` set th - insert typename visited) < card (fst ` set th - visited)"
    by (intro psubset_card_mono) auto
  then show ?case by simp
next
  case (3 th lookfor p ps visited)
  show ?case by simp
next
  case (4 th lookfor p ps visited r found visited')
  then have "visited \<subseteq> visited'"
    using findCycle_visited_mono_dom(3) by metis
  then have "card (fst ` set th - visited') \<le> card (fst ` set th - visited)"
    by (intro card_mono) auto
  then show ?case by auto
next
  case (5 th lookfor t ts visited)
  show ?case by simp
next
  case (6 th lookfor t ts visited)
  show ?case by simp
next
  case (7 th lookfor t ts visited)
  show ?case by simp
next
  case (8 th lookfor t ts visited r found visited')
  then have "visited \<subseteq> visited'"
    using findCycle_visited_mono_dom(1) by metis
  then have "card (fst ` set th - visited') \<le> card (fst ` set th - visited)"
    by (intro card_mono) auto
  then show ?case by auto
qed

text \<open>
  The cycle-breaking loop of \<open>run\<close>: \<open>for (let typename in typeHierarchy)\<close> over the keys
  in enumeration order, demoting the type at which \<open>findCycle\<close> answers yes.
\<close>

fun checkCycles :: "string list \<Rightarrow> hierarchy \<Rightarrow> error + hierarchy" where
  "checkCycles [] th = Inr th"
| "checkCycles (typename # rest) th =
     (case map_of th typename of
        None \<Rightarrow> Inl TypeError
      | Some td \<Rightarrow>
          if isEnum td then checkCycles rest th
          else if \<not> representAsStruct td then checkCycles rest th
          else case findCycle th typename typename {} of
                 Inl e \<Rightarrow> Inl e
               | Inr (found, visited) \<Rightarrow>
                   if found then checkCycles rest (setNonStruct typename th)
                   else checkCycles rest th)"

section \<open>Ancestor propagation\<close>

fun recursiveMakeNonStruct :: "nat \<Rightarrow> string \<Rightarrow> hierarchy \<Rightarrow> error + hierarchy"
  and recursiveMakeNonStructExtends :: "nat \<Rightarrow> string list \<Rightarrow> hierarchy \<Rightarrow> error + hierarchy"
where
  "recursiveMakeNonStruct 0 typename th = Inl RangeError"
| "recursiveMakeNonStruct (Suc depth) typename th =
     (case map_of th typename of
        None \<Rightarrow> Inl TypeError
      | Some td \<Rightarrow> recursiveMakeNonStructExtends depth (extends td) (setNonStruct typename th))"
| "recursiveMakeNonStructExtends depth [] th = Inr th"
| "recursiveMakeNonStructExtends depth (e # es) th =
     (if map_of th e = None then recursiveMakeNonStructExtends depth es th
      else case recursiveMakeNonStruct depth e th of
             Inl err \<Rightarrow> Inl err
           | Inr th' \<Rightarrow> recursiveMakeNonStructExtends depth es th')"

text \<open>The loop after \<open>recursiveMakeNonStruct\<close> in \<open>run\<close>.\<close>

fun makeParentsNonStruct :: "nat \<Rightarrow> string list \<Rightarrow> hierarchy \<Rightarrow> error + hierarchy" where
  "makeParentsNonStruct depth [] th = Inr th"
| "makeParentsNonStruct depth (typename # rest) th =
     (case map_of th typename of
        None \<Rightarrow> Inl TypeError
      | Some td \<Rightarrow>
          if isEnum td then makeParentsNonStruct depth rest th
          else if representAsStruct td then makeParentsNonStruct depth rest th
          else case recursiveMakeNonStruct depth typename th of
                 Inl err \<Rightarrow> Inl err
               | Inr th' \<Rightarrow> makeParentsNonStruct depth rest th')"

text \<open>The three classification phases of \<open>run\<close>, in order.\<close>

definition classify :: "nat \<Rightarrow> (string \<times> string list) list \<Rightarrow> hierarchy \<Rightarrow> error + hierarchy" where
  "classify depth enums th =
     (case classifyTypes depth enums (map fst th) th of
        Inl err \<Rightarrow> Inl err
      | Inr th1 \<Rightarrow>
     (case checkCycles (map fst th1) th1 of
        Inl err \<Rightarrow> Inl err
      | Inr th2 \<Rightarrow> makeParentsNonStruct depth (map fst th2) th2))"

section \<open>Topological order and emission\<close>

fun toposort :: "nat \<Rightarrow> hierarchy \<Rightarrow> string \<Rightarrow> string list \<Rightarrow> error + string list"
  and toposortExtends :: "nat \<Rightarrow> hierarchy \<Rightarrow> string list \<Rightarrow> string list \<Rightarrow> error + string list"
where
  "toposort 0 th typename order = Inl RangeError"
| "toposort (Suc depth) th typename order =
     (case map_of th typename of
        None \<Rightarrow> Inl TypeError
      | Some td \<Rightarrow>
          if isAction td \<or> isEnum td \<or> representAsStruct td then Inr order
          else case toposortExtends depth th (extends td) order of
                 Inl err \<Rightarrow> Inl err
               | Inr order' \<Rightarrow> Inr (setAdd typename order'))"
| "toposortExtends depth th [] order = Inr order"
| "toposortExtends depth th (e # es) order =
     (if map_of th e = None then toposortExtends depth th es order
      else case toposort depth th e order of
             Inl err \<Rightarrow> Inl err
           | Inr order' \<Rightarrow> toposortExtends depth th es order')"

fun toposortAll :: "nat \<Rightarrow> hierarchy \<Rightarrow> string list \<Rightarrow> string list \<Rightarrow> error + string list" where
  "toposortAll depth th [] order = Inr order"
| "toposortAll depth th (type # rest) order =
     (if type \<in> set order then toposortAll depth th rest order
      else case toposort depth th type order of
             Inl err \<Rightarrow> Inl err
           | Inr order' \<Rightarrow> toposortAll depth th rest order')"

text \<open>The \<open>id\<close> and \<open>name\<close> arguments every query starts with.\<close>

definition idArgument :: "processor \<Rightarrow> string \<Rightarrow> argumentdef" where
  "idArgument this typename =
     (case recursiveAddStringValues (Entity (prefix this @ typename))
             [(''unique'', Boolean_value True), (''filterable'', Boolean_value False)]
             (prefix this @ typename @ ''_name'') of
        (t, annotations) \<Rightarrow>
          \<lparr>arg_name = ''id'', arg_type = t, arg_nl = None, arg_impl = annotations\<rparr>)"

definition nameArgument :: "processor \<Rightarrow> string \<Rightarrow> argumentdef" where
  "nameArgument this typename =
     (case recursiveAddStringValues String
             [(''org_schema_type'', String_value ''Text''), (''filterable'', Boolean_value False)]
             (prefix this @ typename @ ''_name'') of
        (t, annotations) \<Rightarrow>
          \<lparr>arg_name = ''name'', arg_type = t, arg_nl = None, arg_impl = annotations\<rparr>)"

text \<open>The loop over \<open>typedef.properties\<close> in \<open>run\<close>.\<close>

fun propertyArguments ::
  "nat \<Rightarrow> processor \<Rightarrow> library \<Rightarrow> hierarchy \<Rightarrow> string \<Rightarrow> (string \<times> propdef) list
    \<Rightarrow> error + argumentdef list"
where
  "propertyArguments depth this lib th typename [] = Inr []"
| "propertyArguments depth this lib th typename (p # rest) =
     (case getBestPropertyType depth this lib th (fst p) (snd p) of
        Inl err \<Rightarrow> Inl err
      | Inr (schemaOrgType, ttType) \<Rightarrow>
     (case ttType of
        None \<Rightarrow> propertyArguments depth this lib th typename rest
      | Some t \<Rightarrow>
          let propertyname = (if fst p \<in> set KEYWORDS then ''_'' @ fst p else fst p);
              annotation =
                [(''org_schema_type'',
                  String_value (case schemaOrgType of Some s \<Rightarrow> s | None \<Rightarrow> []))]
                @ (if propertyname \<in> set PROPERTIES_NO_FILTER
                   then [(''filterable'', Boolean_value False)] else []);
              arg = (case recursiveAddStringValues t annotation
                            (prefix this @ typename @ ''_'' @ propertyname) of
                       (t', annotation') \<Rightarrow>
                         \<lparr>arg_name = propertyname, arg_type = t',
                          arg_nl = Some (makeArgCanonical this lib propertyname t),
                          arg_impl = annotation'\<rparr>)
          in case propertyArguments depth this lib th typename rest of
               Inl err \<Rightarrow> Inl err
             | Inr args \<Rightarrow> Inr (arg # args)))"

text \<open>One iteration of the loop over \<open>order\<close>, for a type that is not a list wrapper.\<close>

definition queryDefinition ::
  "nat \<Rightarrow> processor \<Rightarrow> library \<Rightarrow> hierarchy \<Rightarrow> string \<Rightarrow> typenode \<Rightarrow> error + functiondef"
where
  "queryDefinition depth this lib th typename td =
     (case propertyArguments depth (this\<lparr>hasGeo := map_of (properties td) ''geo'' \<noteq> None\<rparr>)
             lib th typename (properties td) of
        Inl err \<Rightarrow> Inl err
      | Inr args \<Rightarrow>
          let emitted = (if typename \<in> set KEYWORDS then ''_'' @ typename else typename)
          in Inr \<lparr>fn_name = emitted, fn_extends = extends td,
                   fn_args = [idArgument this typename]
                     @ (if typename \<noteq> ''Thing'' then [nameArgument this typename] else [])
                     @ args,
                   fn_canonical = clean lib emitted, fn_confirmation = clean lib emitted\<rparr>)"

definition setQuery :: "string \<Rightarrow> functiondef \<Rightarrow> (string \<times> functiondef) list \<Rightarrow> (string \<times> functiondef) list" where
  "setQuery key fn queries =
     (if map_of queries key = None then queries @ [(key, fn)]
      else map (\<lambda>(k, old). if k = key then (k, fn) else (k, old)) queries)"

fun emitQueries ::
  "nat \<Rightarrow> processor \<Rightarrow> library \<Rightarrow> hierarchy \<Rightarrow> string list \<Rightarrow> (string \<times> functiondef) list
    \<Rightarrow> error + (string \<times> functiondef) list"
where
  "emitQueries depth this lib th [] queries = Inr queries"
| "emitQueries depth this lib th (typename # rest) queries =
     (case map_of th typename of
        None \<Rightarrow> Inl TypeError
      | Some td \<Rightarrow>
          if typename = ''ItemList'' \<or> isItemList td
          then emitQueries depth this lib th rest queries
          else case queryDefinition depth this lib th typename td of
                 Inl err \<Rightarrow> Inl err
               | Inr fn \<Rightarrow>
                   emitQueries depth this lib th rest (setQuery (fn_name fn) fn queries))"

text \<open>\<open>run\<close>, from the loaded hierarchy and enumeration table to the \<open>queries\<close> object.\<close>

definition run ::
  "nat \<Rightarrow> processor \<Rightarrow> library \<Rightarrow> (string \<times> string list) list \<Rightarrow> hierarchy
    \<Rightarrow> error + (string \<times> functiondef) list"
where
  "run depth this lib enums th =
     (case classify depth enums th of
        Inl err \<Rightarrow> Inl err
      | Inr th' \<Rightarrow>
     (case toposortAll depth th' (map fst th') [] of
        Inl err \<Rightarrow> Inl err
      | Inr order \<Rightarrow> emitQueries depth this lib th' order []))"

section \<open>Notions used to state the properties\<close>

definition candidateTypes :: "typenode \<Rightarrow> string list" where
  "candidateTypes td = concat (map (\<lambda>p. types (snd p)) (properties td))"

definition structEdge :: "hierarchy \<Rightarrow> string \<Rightarrow> string \<Rightarrow> bool" where
  "structEdge th a b =
     (case map_of th a of
        None \<Rightarrow> False
      | Some td \<Rightarrow> b \<in> set (candidateTypes td) \<and> \<not> inBUILTIN b \<and> structTarget th b)"

definition structEdges :: "hierarchy \<Rightarrow> (string \<times> string) set" where
  "structEdges th = {(a, b). structEdge th a b}"

text \<open>A search that answers "no" leaves every newly visited node with all its successors visited.\<close>

definition closedNew :: "hierarchy \<Rightarrow> string \<Rightarrow> string set \<Rightarrow> string set \<Rightarrow> bool" where
  "closedNew th lookfor v v' =
     (\<forall>x \<in> v' - v. \<forall>y. (x, y) \<in> structEdges th \<longrightarrow> y \<in> v' \<and> y \<noteq> lookfor)"

text \<open>\<open>demotes th th'\<close>: \<open>th'\<close> is \<open>th\<close> with some \<open>representAsStruct\<close> flags cleared.\<close>

definition demotes :: "hierarchy \<Rightarrow> hierarchy \<Rightarrow> bool" where
  "demotes th th' =
     list_all2 (\<lambda>a b. fst b = fst a \<and>
        (snd b = snd a \<or> snd b = (snd a)\<lparr>representAsStruct := False\<rparr>)) th th'"

definition parentEdges :: "hierarchy \<Rightarrow> (string \<times> string) set" where
  "parentEdges th =
     {(n, p). \<exists>td. map_of th n = Some td \<and> p \<in> set (extends td) \<and> map_of th p \<noteq> None}"

text \<open>\<open>upClosed th n\<close>: if \<open>n\<close> is not struct-representable, neither is any parent of \<open>n\<close>.\<close>

definition upClosed :: "hierarchy \<Rightarrow> string \<Rightarrow> bool" where
  "upClosed th n =
     (\<not> structTarget th n \<longrightarrow> (\<forall>p. (n, p) \<in> parentEdges th \<longrightarrow> \<not> structTarget th p))"

definition newlyClosed :: "hierarchy \<Rightarrow> hierarchy \<Rightarrow> bool" where
  "newlyClosed th th' =
     (\<forall>m. structTarget th m \<and> \<not> structTarget th' m \<longrightarrow>
          (\<forall>p. (m, p) \<in> parentEdges th \<longrightarrow> \<not> structTarget th' p))"

definition enumType :: "hierarchy \<Rightarrow> string \<Rightarrow> bool" where
  "enumType th n = (case map_of th n of None \<Rightarrow> False | Some td \<Rightarrow> isEnum td)"

definition shape :: "hierarchy \<Rightarrow> (string \<times> string list) list" where
  "shape th = map (\<lambda>(n, td). (n, extends td)) th"

definition structByLineage :: "nat \<Rightarrow> hierarchy \<Rightarrow> string \<Rightarrow> bool" where
  "structByLineage depth th type =
     (type \<in> set STRUCTURED_HIERARCHIES
      \<or> isSubClassOfAny depth th type STRUCTURED_HIERARCHIES = Inr True)"

text \<open>
  The hierarchy as the loader leaves it: every node is the object literal of \<open>ensureType\<close>
  with \<open>extends\<close>, \<open>properties\<close> and \<open>comment\<close> filled in, and no flag assigned yet.
\<close>

definition unclassified :: "hierarchy \<Rightarrow> bool" where
  "unclassified th =
     (\<forall>(n, td) \<in> set th.
        td = newType\<lparr>extends := extends td, properties := properties td, tcomment := tcomment td\<rparr>)"

text \<open>A type is put into \<open>order\<close> iff it is in the hierarchy and none of the three flags holds.\<close>

definition emittable :: "hierarchy \<Rightarrow> string \<Rightarrow> bool" where
  "emittable th t =
     (case map_of th t of
        None \<Rightarrow> False
      | Some td \<Rightarrow> \<not> (isAction td \<or> isEnum td \<or> representAsStruct td))"

definition parentsFirst :: "hierarchy \<Rightarrow> string list \<Rightarrow> bool" where
  "parentsFirst th order =
     (\<forall>i < length order. emittable th (order ! i) \<and>
        (\<forall>td. map_of th (order ! i) = Some td \<longrightarrow>
           (\<forall>p \<in> set (extends td). emittable th p \<longrightarrow> p \<in> set (take i order))))"

text \<open>\<open>survives\<close>: the property resolves, without error, to a type.\<close>

definition survives :: "nat \<Rightarrow> processor \<Rightarrow> library \<Rightarrow> hierarchy \<Rightarrow> string \<times> propdef \<Rightarrow> bool" where
  "survives depth this lib th p =
     (case getBestPropertyType depth this lib th (fst p) (snd p) of
        Inl err \<Rightarrow> False
      | Inr (schemaOrgType, ttType) \<Rightarrow> ttType \<noteq> None)"

text \<open>
  The collection of compound fields as the specification words it: the nodes are visited
  starting node first, then, recursively, its parents in the order of \<open>extends\<close>; a node
  whose lineage flag is false is not entered, and the walk does not go above a
  struct-lineage root, unless the starting node is flagged to include root properties.
  \<open>walkParents\<close> is that sequence of visited nodes (\<open>None\<close> when the walk exceeds the
  depth), and \<open>firstSeen\<close> keeps, for every property name, the first definition in a
  sequence.
\<close>

fun walkParents :: "nat \<Rightarrow> hierarchy \<Rightarrow> string \<Rightarrow> string \<Rightarrow> string list option"
  and walkParentsOf :: "nat \<Rightarrow> hierarchy \<Rightarrow> string \<Rightarrow> string list \<Rightarrow> string list option"
where
  "walkParents 0 th start typename = None"
| "walkParents (Suc depth) th start typename =
     (case map_of th typename of
        None \<Rightarrow> Some []
      | Some td \<Rightarrow>
          if start \<notin> set STRUCT_INCLUDE_THING_PROPERTIES \<and> \<not> isStructSubType td then Some []
          else if start \<notin> set STRUCT_INCLUDE_THING_PROPERTIES
                  \<and> typename \<in> set STRUCTURED_HIERARCHIES then Some [typename]
          else map_option ((#) typename) (walkParentsOf depth th start (extends td)))"
| "walkParentsOf depth th start [] = Some []"
| "walkParentsOf depth th start (e # es) =
     (case walkParents depth th start e of
        None \<Rightarrow> None
      | Some first \<Rightarrow> map_option ((@) first) (walkParentsOf depth th start es))"

fun firstSeen :: "('k \<times> 'v) list \<Rightarrow> ('k \<times> 'v) list" where
  "firstSeen [] = []"
| "firstSeen (p # ps) = p # firstSeen (filter (\<lambda>q. fst q \<noteq> fst p) ps)"

definition propertiesOf :: "hierarchy \<Rightarrow> string \<Rightarrow> (string \<times> propdef) list" where
  "propertiesOf th typename = (case map_of th typename of None \<Rightarrow> [] | Some td \<Rightarrow> properties td)"

text \<open>
  The field that \<open>makeCompoundType\<close> stores for a collected property: its name, the type it
  resolves to, the canonical phrases for that name and type, and the annotations; \<open>None\<close>
  when the property resolves to none.
\<close>

definition resolvedField ::
  "nat \<Rightarrow> processor \<Rightarrow> library \<Rightarrow> hierarchy \<Rightarrow> string \<times> propdef
    \<Rightarrow> (string \<times> ttype \<times> canonical \<times> (string \<times> annotation_value) list) option" where
  "resolvedField depth this lib th p =
     (case getBestPropertyType depth this lib th (fst p) (snd p) of
        Inl err \<Rightarrow> None
      | Inr (schemaOrgType, ttType) \<Rightarrow>
          (case ttType of
             None \<Rightarrow> None
           | Some t \<Rightarrow>
               Some (fst p, t, makeArgCanonical this lib (fst p) t,
                     fieldAnnotation this (fst p)
                       (case schemaOrgType of Some s \<Rightarrow> s | None \<Rightarrow> []))))"

text \<open>
  The names in the output of \<open>run\<close>: for every query its name and, for every argument, the
  argument name with the names of the fields of its type when that is a compound type.
\<close>

definition fieldNames :: "ttype \<Rightarrow> string list" where
  "fieldNames t = (case t of Compound n flds \<Rightarrow> map fst flds | _ \<Rightarrow> [])"

definition emittedNames ::
  "(string \<times> functiondef) list \<Rightarrow> (string \<times> (string \<times> string list) list) list" where
  "emittedNames queries =
     map (\<lambda>(k, fn). (fn_name fn, map (\<lambda>a. (arg_name a, fieldNames (arg_type a))) (fn_args fn)))
       queries"

section \<open>Example inputs\<close>

definition rawType :: "string list \<Rightarrow> (string \<times> propdef) list \<Rightarrow> typenode" where
  "rawType ext props = newType\<lparr>extends := ext, properties := props\<rparr>"

definition flagged :: "bool \<Rightarrow> bool \<Rightarrow> typenode \<Rightarrow> typenode" where
  "flagged lineage struct td = td\<lparr>isStructSubType := lineage, representAsStruct := struct\<rparr>"

definition mutualAB :: hierarchy where
  "mutualAB =
     [(''A'', newType\<lparr>extends := [''StructuredValue''],
          properties := [(''b'', \<lparr>types = [''B''], comment = ''The b.''\<rparr>)],
          isStructSubType := True, representAsStruct := True\<rparr>),
      (''B'', newType\<lparr>extends := [''StructuredValue''],
          properties := [(''a'', \<lparr>types = [''A''], comment = ''The a.''\<rparr>)],
          isStructSubType := True, representAsStruct := True\<rparr>)]"

definition rawStructPair :: hierarchy where
  "rawStructPair =
     [(''StructuredValue'', rawType [''Thing''] []),
      (''A'', rawType [''StructuredValue''] [(''b'', \<lparr>types = [''B''], comment = ''The b.''\<rparr>)]),
      (''B'', rawType [''StructuredValue''] [(''a'', \<lparr>types = [''A''], comment = ''The a.''\<rparr>)]),
      (''Thing'', rawType [] [])]"

definition classifiedStructPair :: hierarchy where
  "classifiedStructPair =
     [(''StructuredValue'', flagged True False (rawType [''Thing''] [])),
      (''A'', flagged True False
         (rawType [''StructuredValue''] [(''b'', \<lparr>types = [''B''], comment = ''The b.''\<rparr>)])),
      (''B'', flagged True True
         (rawType [''StructuredValue''] [(''a'', \<lparr>types = [''A''], comment = ''The a.''\<rparr>)])),
      (''Thing'', flagged False False (rawType [] []))]"

definition rawCatalog :: hierarchy where
  "rawCatalog =
     [(''Thing'', rawType [] []),
      (''ItemList'', rawType [''Thing''] []),
      (''OfferCatalog'', rawType [''ItemList''] []),
      (''Product'', rawType [''Thing'']
         [(''offers'', \<lparr>types = [''OfferCatalog''], comment = ''An offer of the product.''\<rparr>),
          (''brand'', \<lparr>types = [''Brand''], comment = ''The brand.''\<rparr>),
          (''of'', \<lparr>types = [''Text''], comment = ''The material.''\<rparr>)])]"

definition classifiedCatalog :: hierarchy where
  "classifiedCatalog =
     [(''Thing'', rawType [] []),
      (''ItemList'', rawType [''Thing''] []),
      (''OfferCatalog'', (rawType [''ItemList''] [])\<lparr>isItemList := True, itemType := ''Thing''\<rparr>),
      (''Product'', rawType [''Thing'']
         [(''offers'', \<lparr>types = [''OfferCatalog''], comment = ''An offer of the product.''\<rparr>),
          (''brand'', \<lparr>types = [''Brand''], comment = ''The brand.''\<rparr>),
          (''of'', \<lparr>types = [''Text''], comment = ''The material.''\<rparr>)])]"

definition offerLineage :: hierarchy where
  "offerLineage =
     [(''Offer'', flagged True True (rawType [''Thing'']
         [(''price'', \<lparr>types = [''Number''], comment = ''The price.''\<rparr>),
          (''seller'', \<lparr>types = [''Organization''], comment = ''The seller.''\<rparr>)])),
      (''AggregateOffer'', flagged True True (rawType [''Offer'']
         [(''price'', \<lparr>types = [''Text''], comment = ''The lowest price.''\<rparr>),
          (''offerCount'', \<lparr>types = [''Integer''], comment = ''The number of offers.''\<rparr>)])),
      (''Thing'', flagged False False (rawType []
         [(''name'', \<lparr>types = [''Text''], comment = ''The name.''\<rparr>)]))]"

text \<open>
  A processor with the default options, and stand-ins for the three imported functions,
  used to evaluate the examples below.
\<close>

definition exampleProcessor :: processor where
  "exampleProcessor =
     \<lparr>className = ''org.schema'', manual = False, always_base_canonical = True,
      hasGeo = False, wikidata_labels = []\<rparr>"

definition exampleLibrary :: library where
  "exampleLibrary =
     \<lparr>clean = toLowerCase, pluralize = (\<lambda>s. s @ ''s''), posTag = map (\<lambda>w. ''NN'')\<rparr>"

definition labelledProcessor :: processor where
  "labelledProcessor = exampleProcessor\<lparr>wikidata_labels := [(''isPartOf'', [''is part of''])]\<rparr>"

definition structWithEmptyStruct :: hierarchy where
  "structWithEmptyStruct =
     [(''S'', flagged True True (rawType [''StructuredValue'']
         [(''a'', \<lparr>types = [''Text''], comment = ''The a.''\<rparr>),
          (''b'', \<lparr>types = [''T''], comment = ''The b.''\<rparr>)])),
      (''T'', flagged True True (rawType [''StructuredValue'']
         [(''ghost'', \<lparr>types = [''Ghost''], comment = ''The ghost.''\<rparr>)]))]"

definition rawPlace :: hierarchy where
  "rawPlace =
     [(''Thing'', rawType [] []),
      (''StructuredValue'', rawType [''Thing''] []),
      (''PostalAddress'', rawType [''StructuredValue'']
         [(''of'', \<lparr>types = [''Text''], comment = ''The addressee.''\<rparr>)]),
      (''Place'', rawType [''Thing'']
         [(''address'', \<lparr>types = [''PostalAddress''], comment = ''The address.''\<rparr>),
          (''of'', \<lparr>types = [''Text''], comment = ''The owner.''\<rparr>)])]"



section \<open>Depth-first search for a cycle\<close>

declare findCycle.simps [simp del]

declare typeToThingTalk.simps [simp del] getBestPropertyType.simps [simp del]
  makeCompoundType.simps [simp del]

lemma findCycle_visited_mono:
  "findCycle th typename lookfor visited = Inr (b, v') \<Longrightarrow> visited \<subseteq> v'"
  "findCycleProps th lookfor ps visited = Inr (b, v') \<Longrightarrow> visited \<subseteq> v'"
  "findCycleTypes th lookfor ts visited = Inr (b, v') \<Longrightarrow> visited \<subseteq> v'"
proof (induction th typename lookfor visited and th lookfor ps visited and th lookfor ts visited
    arbitrary: b v' and b v' and b v'
    rule: findCycle_findCycleProps_findCycleTypes.induct)
  case (1 th typename lookfor visited)
  then show ?case
    by (auto simp: findCycle.simps split: if_splits option.splits)
next
  case (2 th lookfor visited)
  then show ?case by simp
next
  case (3 th lookfor p ps visited)
  then show ?case
    by (fastforce split: sum.splits prod.splits if_splits)
next
  case (4 th lookfor visited)
  then show ?case by simp
next
  case (5 th lookfor t ts visited)
  then show ?case
    by (fastforce split: sum.splits prod.splits if_splits)
qed

lemma findCycle_returns:
  "map_of th typename \<noteq> None \<Longrightarrow> \<exists>r. findCycle th typename lookfor visited = Inr r"
  "\<exists>r. findCycleProps th lookfor ps visited = Inr r"
  "\<exists>r. findCycleTypes th lookfor ts visited = Inr r"
proof (induction th typename lookfor visited and th lookfor ps visited and th lookfor ts visited
    rule: findCycle_findCycleProps_findCycleTypes.induct)
  case (1 th typename lookfor visited)
  show ?case
  proof (cases "typename \<in> visited")
    case True
    then have "findCycle th typename lookfor visited = Inr (typename = lookfor, visited)"
      by (simp add: findCycle.simps)
    then show ?thesis by (rule exI)
  next
    case False
    with "1.prems" obtain td where td: "map_of th typename = Some td" by auto
    with False "1.IH" show ?thesis by (simp add: findCycle.simps)
  qed
next
  case (2 th lookfor visited)
  show ?case by auto
next
  case (3 th lookfor p ps visited)
  from "3.IH"(1) obtain found v1 where
    r1: "findCycleTypes th lookfor (types (snd p)) visited = Inr (found, v1)"
    by (metis surj_pair)
  show ?case
  proof (cases found)
    case True
    with r1 show ?thesis by auto
  next
    case False
    with r1 "3.IH"(2)[OF r1 refl] show ?thesis by auto
  qed
next
  case (4 th lookfor visited)
  show ?case by auto
next
  case (5 th lookfor t ts visited)
  show ?case
  proof (cases "inBUILTIN t \<or> \<not> structTarget th t")
    case True
    with "5.IH"(1,2) show ?thesis by auto
  next
    case ok: False
    then have "map_of th t \<noteq> None"
      by (auto simp: structTarget_def split: option.splits)
    with ok "5.IH"(3) obtain found v1 where
      r1: "findCycle th t lookfor visited = Inr (found, v1)"
      by (metis surj_pair)
    show ?thesis
    proof (cases found)
      case True
      with ok r1 show ?thesis by auto
    next
      case False
      with ok r1 "5.IH"(4)[OF _ _ r1 refl] show ?thesis by auto
    qed
  qed
qed

lemma findCycle_sound:
  "findCycle th typename lookfor visited = Inr (True, v') \<Longrightarrow>
     (typename \<in> visited \<and> typename = lookfor) \<or> (typename, lookfor) \<in> (structEdges th)\<^sup>+"
  "findCycleProps th lookfor ps visited = Inr (True, v') \<Longrightarrow>
     \<exists>p \<in> set ps. \<exists>t \<in> set (types (snd p)).
        \<not> inBUILTIN t \<and> structTarget th t \<and> (t, lookfor) \<in> (structEdges th)\<^sup>*"
  "findCycleTypes th lookfor ts visited = Inr (True, v') \<Longrightarrow>
     \<exists>t \<in> set ts. \<not> inBUILTIN t \<and> structTarget th t \<and> (t, lookfor) \<in> (structEdges th)\<^sup>*"
proof (induction th typename lookfor visited and th lookfor ps visited and th lookfor ts visited
    arbitrary: v' and v' and v'
    rule: findCycle_findCycleProps_findCycleTypes.induct)
  case (1 th typename lookfor visited)
  show ?case
  proof (cases "typename \<in> visited")
    case True
    with "1.prems" show ?thesis by (simp add: findCycle.simps)
  next
    case False
    with "1.prems" obtain td where td: "map_of th typename = Some td"
      and r: "findCycleProps th lookfor (properties td) (insert typename visited) = Inr (True, v')"
      by (auto simp: findCycle.simps split: option.splits)
    from "1.IH"[OF False td r] obtain p t where
      pt: "p \<in> set (properties td)" "t \<in> set (types (snd p))" "\<not> inBUILTIN t" "structTarget th t"
      and reach: "(t, lookfor) \<in> (structEdges th)\<^sup>*"
      by blast
    from pt td have "(typename, t) \<in> structEdges th"
      by (auto simp: structEdges_def structEdge_def candidateTypes_def)
    with reach have "(typename, lookfor) \<in> (structEdges th)\<^sup>+"
      by (simp add: rtrancl_into_trancl2)
    then show ?thesis by simp
  qed
next
  case (2 th lookfor visited)
  then show ?case by simp
next
  case (3 th lookfor p ps visited)
  from "3.prems" obtain found v1 where
    r1: "findCycleTypes th lookfor (types (snd p)) visited = Inr (found, v1)"
    by (auto split: sum.splits)
  show ?case
  proof (cases found)
    case True
    with r1 "3.IH"(1) show ?thesis by auto
  next
    case False
    with r1 "3.prems" have "findCycleProps th lookfor ps v1 = Inr (True, v')" by simp
    from "3.IH"(2)[OF r1 refl _ this] False show ?thesis by auto
  qed
next
  case (4 th lookfor visited)
  then show ?case by simp
next
  case (5 th lookfor t ts visited)
  show ?case
  proof (cases "inBUILTIN t \<or> \<not> structTarget th t")
    case True
    with "5.prems" have "findCycleTypes th lookfor ts visited = Inr (True, v')"
      by (auto split: if_splits)
    with True "5.IH"(1,2) show ?thesis by auto
  next
    case ok: False
    with "5.prems" obtain found v1 where
      r1: "findCycle th t lookfor visited = Inr (found, v1)"
      by (auto split: sum.splits)
    show ?thesis
    proof (cases found)
      case True
      with ok r1 "5.IH"(3)[of v1] have "t = lookfor \<or> (t, lookfor) \<in> (structEdges th)\<^sup>+"
        by auto
      then have "(t, lookfor) \<in> (structEdges th)\<^sup>*" by auto
      with ok show ?thesis by auto
    next
      case False
      with ok r1 "5.prems" have "findCycleTypes th lookfor ts v1 = Inr (True, v')" by simp
      from "5.IH"(4)[OF _ _ r1 refl _ this] ok False show ?thesis by auto
    qed
  qed
qed

lemma closedNew_refl: "closedNew th lookfor v v"
  by (simp add: closedNew_def)

lemma closedNew_trans:
  "closedNew th lookfor v v1 \<Longrightarrow> closedNew th lookfor v1 v2 \<Longrightarrow> v \<subseteq> v1 \<Longrightarrow> v1 \<subseteq> v2 \<Longrightarrow>
     closedNew th lookfor v v2"
  unfolding closedNew_def by blast

lemma findCycle_complete:
  "findCycle th typename lookfor visited = Inr (False, v') \<Longrightarrow>
     lookfor \<in> visited \<or> typename = lookfor \<Longrightarrow>
     typename \<in> v' \<and> \<not> (typename \<in> visited \<and> typename = lookfor) \<and> closedNew th lookfor visited v'"
  "findCycleProps th lookfor ps visited = Inr (False, v') \<Longrightarrow> lookfor \<in> visited \<Longrightarrow>
     (\<forall>p \<in> set ps. \<forall>t \<in> set (types (snd p)).
         \<not> inBUILTIN t \<and> structTarget th t \<longrightarrow> t \<in> v' \<and> t \<noteq> lookfor)
     \<and> closedNew th lookfor visited v'"
  "findCycleTypes th lookfor ts visited = Inr (False, v') \<Longrightarrow> lookfor \<in> visited \<Longrightarrow>
     (\<forall>t \<in> set ts. \<not> inBUILTIN t \<and> structTarget th t \<longrightarrow> t \<in> v' \<and> t \<noteq> lookfor)
     \<and> closedNew th lookfor visited v'"
proof (induction th typename lookfor visited and th lookfor ps visited and th lookfor ts visited
    arbitrary: v' and v' and v'
    rule: findCycle_findCycleProps_findCycleTypes.induct)
  case (1 th typename lookfor visited)
  show ?case
  proof (cases "typename \<in> visited")
    case True
    with "1.prems" show ?thesis by (auto simp: findCycle.simps closedNew_refl)
  next
    case False
    with "1.prems" obtain td where td: "map_of th typename = Some td"
      and r: "findCycleProps th lookfor (properties td) (insert typename visited) = Inr (False, v')"
      by (auto simp: findCycle.simps split: option.splits)
    from "1.prems"(2) have l: "lookfor \<in> insert typename visited" by auto
    note ih = "1.IH"[OF False td r l]
    from findCycle_visited_mono(2)[OF r] have sub: "insert typename visited \<subseteq> v'" .
    have "closedNew th lookfor visited v'"
      unfolding closedNew_def
    proof (intro ballI allI impI)
      fix x y assume x: "x \<in> v' - visited" and e: "(x, y) \<in> structEdges th"
      show "y \<in> v' \<and> y \<noteq> lookfor"
      proof (cases "x = typename")
        case True
        with e td obtain p where "p \<in> set (properties td)" "y \<in> set (types (snd p))"
          "\<not> inBUILTIN y" "structTarget th y"
          by (auto simp: structEdges_def structEdge_def candidateTypes_def)
        with ih show ?thesis by blast
      next
        case False
        with x have "x \<in> v' - insert typename visited" by simp
        with ih e show ?thesis unfolding closedNew_def by blast
      qed
    qed
    with sub False show ?thesis by auto
  qed
next
  case (2 th lookfor visited)
  then show ?case by (simp add: closedNew_refl)
next
  case (3 th lookfor p ps visited)
  from "3.prems" obtain v1 where
    r1: "findCycleTypes th lookfor (types (snd p)) visited = Inr (False, v1)"
    and r2: "findCycleProps th lookfor ps v1 = Inr (False, v')"
    by (auto split: sum.splits if_splits)
  from findCycle_visited_mono(3)[OF r1] have s1: "visited \<subseteq> v1" .
  from findCycle_visited_mono(2)[OF r2] have s2: "v1 \<subseteq> v'" .
  from s1 "3.prems"(2) have l1: "lookfor \<in> v1" by auto
  note ih1 = "3.IH"(1)[OF r1 "3.prems"(2)]
  note ih2 = "3.IH"(2)[OF r1 refl _ r2 l1, simplified]
  from ih1 ih2 s1 s2 have "closedNew th lookfor visited v'"
    by (blast intro: closedNew_trans)
  with ih1 ih2 s2 show ?case by auto
next
  case (4 th lookfor visited)
  then show ?case by (simp add: closedNew_refl)
next
  case (5 th lookfor t ts visited)
  show ?case
  proof (cases "inBUILTIN t \<or> \<not> structTarget th t")
    case True
    with "5.prems" have "findCycleTypes th lookfor ts visited = Inr (False, v')"
      by (auto split: if_splits)
    with True "5.IH"(1,2) "5.prems"(2) show ?thesis by auto
  next
    case ok: False
    with "5.prems" obtain v1 where
      r1: "findCycle th t lookfor visited = Inr (False, v1)"
      and r2: "findCycleTypes th lookfor ts v1 = Inr (False, v')"
      by (auto split: sum.splits if_splits)
    from findCycle_visited_mono(1)[OF r1] have s1: "visited \<subseteq> v1" .
    from findCycle_visited_mono(3)[OF r2] have s2: "v1 \<subseteq> v'" .
    from s1 "5.prems"(2) have l1: "lookfor \<in> v1" by auto
    from ok have ok': "\<not> inBUILTIN t" "\<not> \<not> structTarget th t" by auto
    from "5.prems"(2) have "lookfor \<in> visited \<or> t = lookfor" by simp
    note ih1 = "5.IH"(3)[OF ok' r1 this]
    note ih2 = "5.IH"(4)[OF ok' r1 refl _ r2 l1, simplified]
    from ih1 "5.prems"(2) have "t \<noteq> lookfor" by auto
    moreover from ih1 s2 have "t \<in> v'" by auto
    moreover from ih1 ih2 s1 s2 have "closedNew th lookfor visited v'"
      by (blast intro: closedNew_trans)
    ultimately show ?thesis using ih2 by auto
  qed
qed

lemma findCycle_False_acyclic:
  assumes "findCycle th n n {} = Inr (False, v')"
  shows "(n, n) \<notin> (structEdges th)\<^sup>+"
proof
  assume cyc: "(n, n) \<in> (structEdges th)\<^sup>+"
  from findCycle_complete(1)[OF assms] have n: "n \<in> v'" and cl: "closedNew th n {} v'"
    by auto
  have reach: "x \<in> v'" if "(n, x) \<in> (structEdges th)\<^sup>*" for x
    using that
  proof (induction rule: rtrancl_induct)
    case base
    show ?case by (rule n)
  next
    case (step y z)
    with cl show ?case unfolding closedNew_def by blast
  qed
  from cyc obtain z where "(n, z) \<in> (structEdges th)\<^sup>*" "(z, n) \<in> structEdges th"
    by (auto dest: tranclD2)
  with reach cl show False unfolding closedNew_def by blast
qed

lemma findCycle_True_cyclic:
  assumes "findCycle th n n {} = Inr (True, v')"
  shows "(n, n) \<in> (structEdges th)\<^sup>+"
  using findCycle_sound(1)[OF assms] by simp

section \<open>The cycle-breaking loop\<close>

lemma demotes_refl: "demotes th th"
  by (simp add: demotes_def list_all2_refl)

lemma demotes_trans:
  assumes "demotes a b" "demotes b c"
  shows "demotes a c"
  unfolding demotes_def
  by (rule list_all2_trans[OF _ assms(1)[unfolded demotes_def] assms(2)[unfolded demotes_def]])
     auto

lemma demotes_setNonStruct: "demotes th (setNonStruct n th)"
  unfolding demotes_def setNonStruct_def
  by (induction th) auto


lemma demotes_map_of:
  "demotes th th' \<Longrightarrow>
     (case map_of th n of
        None \<Rightarrow> map_of th' n = None
      | Some td \<Rightarrow> map_of th' n = Some td \<or> map_of th' n = Some (td\<lparr>representAsStruct := False\<rparr>))"
  unfolding demotes_def
  by (induction rule: list_all2_induct) (auto split: option.splits)

lemma map_of_setNonStruct:
  "map_of (setNonStruct n th) m =
     (if m = n then map_option (\<lambda>td. td\<lparr>representAsStruct := False\<rparr>) (map_of th m)
      else map_of th m)"
  unfolding setNonStruct_def by (induction th) auto

lemma demotes_structTarget: "demotes th th' \<Longrightarrow> structTarget th' t \<Longrightarrow> structTarget th t"
  using demotes_map_of[of th th' t]
  by (auto simp: structTarget_def split: option.splits)

lemma demotes_structEdges: "demotes th th' \<Longrightarrow> structEdges th' \<subseteq> structEdges th"
proof
  fix e assume d: "demotes th th'" and e: "e \<in> structEdges th'"
  obtain a b where ab: "e = (a, b)" by (cases e)
  from e ab obtain td' where td': "map_of th' a = Some td'" "b \<in> set (candidateTypes td')"
    "\<not> inBUILTIN b" "structTarget th' b"
    by (auto simp: structEdges_def structEdge_def split: option.splits)
  from demotes_map_of[OF d, of a] td' obtain td where "map_of th a = Some td"
    "candidateTypes td = candidateTypes td'"
    by (auto simp: candidateTypes_def split: option.splits)
  with td' demotes_structTarget[OF d] ab show "e \<in> structEdges th"
    by (auto simp: structEdges_def structEdge_def)
qed

lemma demotes_acyclic:
  "demotes th th' \<Longrightarrow> (n, n) \<notin> (structEdges th)\<^sup>+ \<Longrightarrow> (n, n) \<notin> (structEdges th')\<^sup>+"
  using trancl_mono[OF _ demotes_structEdges] by blast

lemma demotes_setNonStruct_mono:
  "demotes th th' \<Longrightarrow> demotes (setNonStruct n th) (setNonStruct n th')"
  unfolding demotes_def setNonStruct_def
  by (induction rule: list_all2_induct) auto

lemma checkCycles_Cons_cases:
  assumes "checkCycles (k # ks) th = Inr th'"
  obtains
    (skip) td where "map_of th k = Some td" "isEnum td \<or> \<not> representAsStruct td"
      "checkCycles ks th = Inr th'"
  | (keep) td visited where "map_of th k = Some td" "\<not> isEnum td" "representAsStruct td"
      "findCycle th k k {} = Inr (False, visited)" "checkCycles ks th = Inr th'"
  | (demote) td visited where "map_of th k = Some td" "\<not> isEnum td" "representAsStruct td"
      "findCycle th k k {} = Inr (True, visited)" "checkCycles ks (setNonStruct k th) = Inr th'"
proof -
  from assms obtain td where td: "map_of th k = Some td"
    by (cases "map_of th k") auto
  show thesis
  proof (cases "isEnum td \<or> \<not> representAsStruct td")
    case True
    with assms td have "checkCycles ks th = Inr th'" by (auto split: if_splits)
    with td True show thesis by (rule skip)
  next
    case False
    with assms td obtain found visited where f: "findCycle th k k {} = Inr (found, visited)"
      by (cases "findCycle th k k {}") auto
    show thesis
    proof (cases found)
      case True
      with assms td False f have "checkCycles ks (setNonStruct k th) = Inr th'" by simp
      with td False f True show thesis by (intro demote) auto
    next
      case nf: False
      with assms td False f have "checkCycles ks th = Inr th'" by simp
      with td False f nf show thesis by (intro keep) auto
    qed
  qed
qed

lemma checkCycles_demotes: "checkCycles ks th = Inr th' \<Longrightarrow> demotes th th'"
proof (induction ks arbitrary: th)
  case Nil
  then show ?case by (simp add: demotes_refl)
next
  case (Cons k ks)
  from Cons.prems show ?case
  proof (cases rule: checkCycles_Cons_cases)
    case (demote td visited)
    from Cons.IH[OF demote(5)] demotes_setNonStruct[of th k] show ?thesis
      by (rule demotes_trans[rotated])
  qed (auto intro: Cons.IH)
qed

lemma checkCycles_other:
  "checkCycles ks th = Inr th' \<Longrightarrow> n \<notin> set ks \<Longrightarrow> map_of th' n = map_of th n"
proof (induction ks arbitrary: th)
  case Nil
  then show ?case by simp
next
  case (Cons k ks)
  from Cons.prems(2) have nk: "n \<noteq> k" "n \<notin> set ks" by auto
  from Cons.prems(1) show ?case
  proof (cases rule: checkCycles_Cons_cases)
    case (demote td visited)
    from Cons.IH[OF demote(5) nk(2)] nk(1) show ?thesis
      by (simp add: map_of_setNonStruct)
  qed (use Cons.IH[of th] nk in auto)
qed

lemma checkCycles_append:
  "checkCycles (xs @ ys) th =
     (case checkCycles xs th of Inl e \<Rightarrow> Inl e | Inr th1 \<Rightarrow> checkCycles ys th1)"
proof (induction xs arbitrary: th)
  case Nil
  show ?case by simp
next
  case (Cons x xs)
  show ?case
  proof (cases "map_of th x")
    case None
    then show ?thesis by simp
  next
    case (Some td)
    show ?thesis
    proof (cases "findCycle th x x {}")
      case (Inl e)
      with Some Cons.IH show ?thesis by simp
    next
      case (Inr r)
      with Some Cons.IH show ?thesis by (cases r) simp
    qed
  qed
qed

lemma setNonStruct_keys: "fst ` set (setNonStruct k th) = fst ` set th"
  unfolding setNonStruct_def by (induction th) auto

lemma checkCycles_returns:
  "set ks \<subseteq> fst ` set th \<Longrightarrow> \<exists>th'. checkCycles ks th = Inr th'"
proof (induction ks arbitrary: th)
  case Nil
  show ?case by simp
next
  case (Cons k ks)
  from Cons.prems obtain td where td: "map_of th k = Some td"
    by (cases "map_of th k") (auto simp: map_of_eq_None_iff)
  then obtain found visited where f: "findCycle th k k {} = Inr (found, visited)"
    using findCycle_returns(1)[of th k k "{}"] by auto
  from Cons.prems have ks: "set ks \<subseteq> fst ` set th" by simp
  from Cons.IH[OF ks] obtain th1 where r1: "checkCycles ks th = Inr th1" by blast
  from ks have "set ks \<subseteq> fst ` set (setNonStruct k th)" by (simp add: setNonStruct_keys)
  from Cons.IH[OF this] obtain th2 where r2: "checkCycles ks (setNonStruct k th) = Inr th2"
    by blast
  from td f r1 r2 show ?case by simp
qed


lemma inBUILTIN_A: "\<not> inBUILTIN ''A''" "\<not> inBUILTIN ''B''" "\<not> inBUILTIN ''X''"
  by (simp_all add: inBUILTIN_def BUILTIN_TYPEMAP_def)

lemma checkCycles_mutualAB:
  "checkCycles (map fst mutualAB) mutualAB = Inr (setNonStruct ''A'' mutualAB)"
  by (simp add: mutualAB_def newType_def findCycle.simps structTarget_def inBUILTIN_A
      setNonStruct_def)

text \<open>
  C2 (amended). For two struct-representable classes \<open>A\<close> and \<open>B\<close>, neither a builtin name,
  \<open>A\<close> not an enumeration and enumerated before \<open>B\<close>, where \<open>A\<close> has a property with candidate
  type \<open>B\<close> and \<open>B\<close> one with candidate type \<open>A\<close>: the loop runs to completion and demotes
  \<open>A\<close>, the earlier-visited of the two; \<open>B\<close> remains struct-representable whenever it is on no
  cycle of struct-typed edges once \<open>A\<close> is demoted.
\<close>

theorem mutual_pair_first_demoted:
  assumes dist: "distinct (map fst th)"
    and order: "map fst th = ks1 @ A # ks2" "B \<in> set ks2"
    and A: "map_of th A = Some ta" "representAsStruct ta" "\<not> isEnum ta" "\<not> inBUILTIN A"
    and B: "map_of th B = Some tb" "representAsStruct tb" "\<not> inBUILTIN B"
    and AB: "B \<in> set (candidateTypes ta)" "A \<in> set (candidateTypes tb)"
  shows "\<exists>th'. checkCycles (map fst th) th = Inr th' \<and> \<not> structTarget th' A
           \<and> ((B, B) \<notin> (structEdges (setNonStruct A th))\<^sup>+ \<longrightarrow> structTarget th' B)"
proof -
  from dist order have notin1: "A \<notin> set ks1" "B \<notin> set ks1" "A \<notin> set ks2" "A \<noteq> B"
    by auto
  from checkCycles_returns[of "map fst th" th] obtain th' where
    run: "checkCycles (map fst th) th = Inr th'" by auto
  with order(1) obtain th1 where r1: "checkCycles ks1 th = Inr th1"
    and r2: "checkCycles (A # ks2) th1 = Inr th'"
    by (auto simp: checkCycles_append split: sum.splits)
  from checkCycles_other[OF r1] notin1 A(1) B(1)
  have m1: "map_of th1 A = Some ta" "map_of th1 B = Some tb" by auto
  with A B AB have "(A, B) \<in> structEdges th1" "(B, A) \<in> structEdges th1"
    by (auto simp: structEdges_def structEdge_def structTarget_def)
  then have cyc: "(A, A) \<in> (structEdges th1)\<^sup>+" by (rule trancl_into_trancl2[OF _ r_into_trancl])
  from r2 have r3: "checkCycles ks2 (setNonStruct A th1) = Inr th'"
  proof (cases rule: checkCycles_Cons_cases)
    case (skip td)
    with m1 A show ?thesis by simp
  next
    case (keep td visited)
    with cyc findCycle_False_acyclic show ?thesis by blast
  next
    case (demote td visited)
    then show ?thesis by simp
  qed
  from checkCycles_other[OF r3 notin1(3)] m1 have "\<not> structTarget th' A"
    by (simp add: map_of_setNonStruct structTarget_def)
  moreover have "structTarget th' B" if noc: "(B, B) \<notin> (structEdges (setNonStruct A th))\<^sup>+"
  proof -
    from order(2) obtain xs ys where ks2: "ks2 = xs @ B # ys"
      by (auto dest: split_list)
    with dist order(1) have notin2: "B \<notin> set xs" "B \<notin> set ys" by auto
    from r3 ks2 obtain th2 where r4: "checkCycles xs (setNonStruct A th1) = Inr th2"
      and r5: "checkCycles (B # ys) th2 = Inr th'"
      by (auto simp: checkCycles_append split: sum.splits)
    from checkCycles_other[OF r4 notin2(1)] m1 notin1(4)
    have m2: "map_of th2 B = Some tb" by (simp add: map_of_setNonStruct)
    have "demotes (setNonStruct A th) th2"
      using demotes_setNonStruct_mono[OF checkCycles_demotes[OF r1]] checkCycles_demotes[OF r4]
      by (rule demotes_trans)
    from demotes_acyclic[OF this noc] have noc2: "(B, B) \<notin> (structEdges th2)\<^sup>+" .
    from r5 have r6: "checkCycles ys th2 = Inr th'"
    proof (cases rule: checkCycles_Cons_cases)
      case (skip td)
      then show ?thesis by simp
    next
      case (keep td visited)
      then show ?thesis by simp
    next
      case (demote td visited)
      with noc2 findCycle_True_cyclic show ?thesis by blast
    qed
    from checkCycles_other[OF r6 notin2(2)] m2 B(2) show ?thesis
      by (simp add: structTarget_def)
  qed
  ultimately show ?thesis using run by blast
qed

text \<open>
  C2 as stated fails: with \<open>A\<close> enumerated before \<open>B\<close>, it is \<open>A\<close> that is demoted and the
  later-visited \<open>B\<close> that remains struct-representable.
\<close>

theorem later_visited_demoted_counterexample:
  "checkCycles (map fst mutualAB) mutualAB = Inr (setNonStruct ''A'' mutualAB)
   \<and> map fst mutualAB = [''A'', ''B'']
   \<and> \<not> structTarget (setNonStruct ''A'' mutualAB) ''A''
   \<and> structTarget (setNonStruct ''A'' mutualAB) ''B''"
  by (simp add: checkCycles_mutualAB)
     (simp add: mutualAB_def newType_def setNonStruct_def structTarget_def)

theorem mutual_pair_first_demoted_witness:
  "\<exists>th'. checkCycles (map fst mutualAB) mutualAB = Inr th' \<and> \<not> structTarget th' ''A''
      \<and> structTarget th' ''B''"
proof -
  have "structEdges (setNonStruct ''A'' mutualAB) \<subseteq> {(''A'', ''B'')}"
    by (auto simp: structEdges_def structEdge_def mutualAB_def newType_def setNonStruct_def
        candidateTypes_def structTarget_def split: option.splits if_splits)
  then have "(structEdges (setNonStruct ''A'' mutualAB))\<^sup>+ \<subseteq> {(''A'', ''B'')}\<^sup>+"
    by (rule trancl_mono_subset)
  then have noc: "(''B'', ''B'') \<notin> (structEdges (setNonStruct ''A'' mutualAB))\<^sup>+"
    by (auto dest!: subsetD dest: tranclD)
  have keys: "distinct (map fst mutualAB)" "map fst mutualAB = [] @ ''A'' # [''B'']"
    "''B'' \<in> set [''B'']"
    by (simp_all add: mutualAB_def)
  obtain ta tb where m: "map_of mutualAB ''A'' = Some ta" "map_of mutualAB ''B'' = Some tb"
    and flags: "representAsStruct ta" "\<not> isEnum ta" "representAsStruct tb"
    and cand: "''B'' \<in> set (candidateTypes ta)" "''A'' \<in> set (candidateTypes tb)"
    by (simp add: mutualAB_def newType_def candidateTypes_def)
  from mutual_pair_first_demoted[OF keys m(1) flags(1,2) inBUILTIN_A(1) m(2) flags(3)
      inBUILTIN_A(2) cand] noc
  show ?thesis by blast
qed

section \<open>Subclass tests and flag assignment\<close>

lemma shape_map_of: "map_of (shape th) n = map_option extends (map_of th n)"
  unfolding shape_def by (induction th) auto

lemma shape_lookup:
  assumes "shape th = shape th'"
  shows "map_option extends (map_of th n) = map_option extends (map_of th' n)"
  using shape_map_of[of th n] shape_map_of[of th' n] assms by simp

lemma shape_None: "shape th = shape th' \<Longrightarrow> map_of th n = None \<longleftrightarrow> map_of th' n = None"
  using shape_lookup[of th th' n] by (metis map_option_is_None)

lemma isSubClass_shape:
  "shape th = shape th' \<Longrightarrow> isSubClass depth th typename b = isSubClass depth th' typename b"
  "shape th = shape th' \<Longrightarrow> isSubClassExtends depth th es b = isSubClassExtends depth th' es b"
proof (induction depth th typename b and depth th es b
    rule: isSubClass_isSubClassExtends.induct)
  case (1 th typename subtypeof)
  show ?case by simp
next
  case (2 depth th typename subtypeof)
  from shape_lookup[OF "2.prems", of typename] "2.IH" "2.prems" show ?case
    by (cases "map_of th typename"; cases "map_of th' typename") auto
next
  case (3 depth th subtypeof)
  show ?case by simp
next
  case (4 depth th e es subtypeof)
  show ?case
  proof (cases "map_of th e")
    case None
    with shape_None[OF "4.prems", of e] have "map_of th' e = None" by simp
    with None "4.IH"(1) "4.prems" show ?thesis by simp
  next
    case (Some ed)
    with shape_None[OF "4.prems", of e] obtain ed' where ed': "map_of th' e = Some ed'"
      by auto
    show ?thesis
    proof (cases "e = subtypeof")
      case True
      then show ?thesis by simp
    next
      case False
      with Some "4.IH"(2) "4.prems" have
        eq: "isSubClass depth th e subtypeof = isSubClass depth th' e subtypeof" by simp
      show ?thesis
      proof (cases "isSubClass depth th e subtypeof")
        case (Inl err)
        with eq[symmetric] False Some ed' show ?thesis by simp
      next
        case (Inr found)
        with eq[symmetric] False Some ed' "4.IH"(3)[of found] "4.prems" show ?thesis by simp
      qed
    qed
  qed
qed

lemma isSubClass_more_depth:
  "isSubClass depth th typename b = Inr r \<Longrightarrow> isSubClass (Suc depth) th typename b = Inr r"
  "isSubClassExtends depth th es b = Inr r \<Longrightarrow> isSubClassExtends (Suc depth) th es b = Inr r"
proof (induction depth th typename b and depth th es b arbitrary: r and r
    rule: isSubClass_isSubClassExtends.induct)
  case (1 th typename subtypeof)
  then show ?case by simp
next
  case (2 depth th typename subtypeof)
  then show ?case by (cases "map_of th typename") auto
next
  case (3 depth th subtypeof)
  then show ?case by simp
next
  case (4 depth th e es subtypeof)
  show ?case
  proof (cases "e = subtypeof")
    case True
    with "4.prems" show ?thesis by simp
  next
    case neq: False
    show ?thesis
    proof (cases "map_of th e")
      case None
      with neq "4.prems" "4.IH"(1) show ?thesis by simp
    next
      case (Some ed)
      with neq "4.prems" obtain found where f: "isSubClass depth th e subtypeof = Inr found"
        by (cases "isSubClass depth th e subtypeof") auto
      from "4.IH"(2)[OF neq _ f] Some have
        f': "isSubClass (Suc depth) th e subtypeof = Inr found" by simp
      show ?thesis
      proof (cases found)
        case True
        with neq Some f f' "4.prems" show ?thesis by simp
      next
        case nf: False
        with neq Some f "4.prems" have "isSubClassExtends depth th es subtypeof = Inr r"
          by simp
        from "4.IH"(3)[OF neq _ f nf this] Some have
          "isSubClassExtends (Suc depth) th es subtypeof = Inr r" by simp
        with neq Some f' nf show ?thesis by simp
      qed
    qed
  qed
qed

lemma isSubClass_add_depth:
  "isSubClass depth th typename b = Inr r \<Longrightarrow> isSubClass (depth + k) th typename b = Inr r"
  by (induction k) (auto dest: isSubClass_more_depth(1))

lemma isSubClass_depth_unique:
  assumes "isSubClass d1 th typename b = Inr r1" and "isSubClass d2 th typename b = Inr r2"
  shows "r1 = r2"
proof (cases "d1 \<le> d2")
  case True
  then obtain k where "d2 = d1 + k" by (auto simp: le_iff_add)
  with isSubClass_add_depth[OF assms(1), of k] assms(2) show ?thesis by simp
next
  case False
  then obtain k where "d1 = d2 + k" by (metis le_iff_add nat_le_linear)
  with isSubClass_add_depth[OF assms(2), of k] assms(1) show ?thesis by simp
qed

text \<open>A class with a parent that is, or is a subclass of, \<open>b\<close> is a subclass of \<open>b\<close>.\<close>

lemma isSubClassExtends_parent:
  assumes "isSubClassExtends depth th es b = Inr r" and "p \<in> set es"
    and "p = b \<or> (map_of th p \<noteq> None \<and> (\<exists>d. isSubClass d th p b = Inr True))"
  shows r
  using assms(1,2)
proof (induction es)
  case Nil
  then show ?case by simp
next
  case (Cons e es)
  show ?case
  proof (cases "e = b")
    case True
    with Cons.prems(1) show ?thesis by simp
  next
    case neq: False
    show ?thesis
    proof (cases "map_of th e")
      case None
      with neq Cons.prems assms(3) have "isSubClassExtends depth th es b = Inr r" "p \<in> set es"
        by auto
      with Cons.IH show ?thesis by simp
    next
      case (Some ed)
      with neq Cons.prems(1) obtain found where f: "isSubClass depth th e b = Inr found"
        by (cases "isSubClass depth th e b") auto
      show ?thesis
      proof (cases found)
        case True
        with neq Some f Cons.prems(1) show ?thesis by simp
      next
        case nf: False
        with neq Some f Cons.prems(1) have r: "isSubClassExtends depth th es b = Inr r"
          by simp
        from nf f neq assms(3) have "p \<noteq> e"
          by (auto dest: isSubClass_depth_unique)
        with Cons.prems(2) have "p \<in> set es" by simp
        with Cons.IH r show ?thesis by simp
      qed
    qed
  qed
qed

lemma isSubClass_parent:
  assumes "isSubClass depth th n b = Inr r" and "map_of th n = Some td" and "p \<in> set (extends td)"
    and "p = b \<or> (map_of th p \<noteq> None \<and> (\<exists>d. isSubClass d th p b = Inr True))"
  shows r
proof (cases depth)
  case 0
  with assms(1) show ?thesis by simp
next
  case (Suc d)
  with assms(1,2) have "isSubClassExtends d th (extends td) b = Inr r" by simp
  from isSubClassExtends_parent[OF this assms(3,4)] show ?thesis .
qed

lemma isSubClassOfAny_False:
  "isSubClassOfAny depth th n bs = Inr False \<Longrightarrow> b \<in> set bs \<Longrightarrow>
     isSubClass depth th n b = Inr False"
proof (induction bs)
  case Nil
  then show ?case by simp
next
  case (Cons a bs)
  from Cons.prems(1) obtain found where f: "isSubClass depth th n a = Inr found"
    by (cases "isSubClass depth th n a") auto
  with Cons show ?case by (cases found) auto
qed

lemma isSubClassOfAny_True:
  "isSubClassOfAny depth th n bs = Inr True \<Longrightarrow> \<exists>b \<in> set bs. isSubClass depth th n b = Inr True"
proof (induction bs)
  case Nil
  then show ?case by simp
next
  case (Cons a bs)
  from Cons.prems(1) obtain found where f: "isSubClass depth th n a = Inr found"
    by (cases "isSubClass depth th n a") auto
  with Cons show ?case by (cases found) auto
qed

lemma isSubClassOfAny_shape:
  "shape th = shape th' \<Longrightarrow> isSubClassOfAny depth th n bs = isSubClassOfAny depth th' n bs"
  by (induction bs) (simp_all add: isSubClass_shape(1)[of th th'] split: sum.splits)

lemma map_of_updateType:
  "map_of (updateType n f th) m = (if m = n then map_option f (map_of th m) else map_of th m)"
  unfolding updateType_def by (induction th) auto

lemma shape_updateType: "(\<And>td. extends (f td) = extends td) \<Longrightarrow> shape (updateType n f th) = shape th"
  unfolding updateType_def shape_def by (induction th) auto

lemma keys_shape: "map fst th = map fst (shape th)"
  unfolding shape_def by (induction th) auto

lemma classifyType_effect:
  assumes "classifyType depth enums type th = Inr th'"
  shows "shape th' = shape th"
    and "m \<noteq> type \<Longrightarrow> map_of th' m = map_of th m"
    and "map_of th type = Some td \<Longrightarrow> \<not> representAsStruct td \<Longrightarrow>
           structTarget th' type = structByLineage depth th type"
    and "type \<notin> set STRUCTURED_HIERARCHIES \<Longrightarrow>
           \<exists>r. isSubClassOfAny depth th type STRUCTURED_HIERARCHIES = Inr r"
proof -
  from assms obtain action where a: "isSubClass depth th type ''Action'' = Inr action"
    unfolding classifyType_def by (cases "isSubClass depth th type ''Action''") auto
  from assms a obtain enum where
    e: "(if map_of enums type \<noteq> None then Inr True
         else isSubClass depth th type ''Enumeration'') = Inr enum"
    unfolding classifyType_def
    by (cases "if map_of enums type \<noteq> None then Inr True
               else isSubClass depth th type ''Enumeration''") auto
  from assms a e obtain itemList where i: "isSubClass depth th type ''ItemList'' = Inr itemList"
    unfolding classifyType_def by (cases "isSubClass depth th type ''ItemList''") auto
  from assms a e i obtain struct where
    s: "(if type \<in> set STRUCTURED_HIERARCHIES then Inr True
         else isSubClassOfAny depth th type STRUCTURED_HIERARCHIES) = Inr struct"
    unfolding classifyType_def
    by (cases "if type \<in> set STRUCTURED_HIERARCHIES then Inr True
               else isSubClassOfAny depth th type STRUCTURED_HIERARCHIES") auto
  define f where "f = (\<lambda>td :: typenode. td
      \<lparr>isAction := action, isEnum := enum,
       enumValues := if enum then case map_of enums type of None \<Rightarrow> [] | Some vs \<Rightarrow> vs
                     else enumValues td,
       isItemList := itemList,
       itemType := if itemList then getItemType type th else itemType td,
       isStructSubType := if struct then True else isStructSubType td,
       representAsStruct := if struct then True else representAsStruct td\<rparr>)"
  from assms a e i s have th': "th' = updateType type f th"
    unfolding classifyType_def f_def by (simp add: NON_STRUCT_TYPES_def)
  have f: "\<And>td. extends (f td) = extends td"
    "\<And>td. representAsStruct (f td) = (struct \<or> representAsStruct td)"
    by (simp_all add: f_def)
  from th' f(1) show "shape th' = shape th" by (simp add: shape_updateType)
  from th' show "m \<noteq> type \<Longrightarrow> map_of th' m = map_of th m" by (simp add: map_of_updateType)
  from s have "struct = structByLineage depth th type"
    by (auto simp: structByLineage_def split: if_splits)
  with th' f(2) show "map_of th type = Some td \<Longrightarrow> \<not> representAsStruct td \<Longrightarrow>
      structTarget th' type = structByLineage depth th type"
    by (simp add: structTarget_def map_of_updateType)
  from s show "type \<notin> set STRUCTURED_HIERARCHIES \<Longrightarrow>
      \<exists>r. isSubClassOfAny depth th type STRUCTURED_HIERARCHIES = Inr r"
    by auto
qed

lemma structByLineage_shape:
  "shape th = shape th' \<Longrightarrow> structByLineage depth th n = structByLineage depth th' n"
  by (simp add: structByLineage_def isSubClassOfAny_shape[of th th'])

lemma classifyTypes_effect:
  assumes "classifyTypes depth enums ks th = Inr th1" and "distinct ks"
  shows "shape th1 = shape th"
    and "m \<notin> set ks \<Longrightarrow> map_of th1 m = map_of th m"
    and "m \<in> set ks \<Longrightarrow> map_of th m = Some td \<Longrightarrow> \<not> representAsStruct td \<Longrightarrow>
           structTarget th1 m = structByLineage depth th m
           \<and> (m \<notin> set STRUCTURED_HIERARCHIES \<longrightarrow>
                (\<exists>r. isSubClassOfAny depth th m STRUCTURED_HIERARCHIES = Inr r))"
  using assms
proof (induction ks arbitrary: th)
  case Nil
  { case 1 then show ?case by simp }
  { case 2 then show ?case by simp }
  { case 3 then show ?case by simp }
next
  case (Cons k ks)
  { case 1
    then obtain th0 where r0: "classifyType depth enums k th = Inr th0"
      and r1: "classifyTypes depth enums ks th0 = Inr th1"
      by (auto split: sum.splits)
    from Cons.IH(1)[OF r1] 1(2) classifyType_effect(1)[OF r0] show ?case by simp }
  { case 2
    then obtain th0 where r0: "classifyType depth enums k th = Inr th0"
      and r1: "classifyTypes depth enums ks th0 = Inr th1"
      by (auto split: sum.splits)
    from Cons.IH(2)[OF _ r1] 2 classifyType_effect(2)[OF r0, of m] show ?case by simp }
  { case 3
    then obtain th0 where r0: "classifyType depth enums k th = Inr th0"
      and r1: "classifyTypes depth enums ks th0 = Inr th1"
      by (auto split: sum.splits)
    note sh = classifyType_effect(1)[OF r0]
    show ?case
    proof (cases "m = k")
      case True
      with 3 have "m \<notin> set ks" by simp
      from Cons.IH(2)[OF this r1] 3(5) have "map_of th1 m = map_of th0 m" by simp
      then have "structTarget th1 m = structTarget th0 m" by (simp add: structTarget_def)
      with classifyType_effect(3,4)[OF r0] True 3(2,3) show ?thesis by auto
    next
      case False
      with 3(1) have mks: "m \<in> set ks" by simp
      from classifyType_effect(2)[OF r0 False] 3(2) have "map_of th0 m = Some td" by simp
      from Cons.IH(3)[OF mks this 3(3) r1] 3(5) sh show ?thesis
        by (simp add: structByLineage_shape[of th0 th] isSubClassOfAny_shape[of th0 th])
    qed }
qed

section \<open>Propagation to ancestors\<close>

lemma parentEdges_shape: "shape th = shape th' \<Longrightarrow> parentEdges th = parentEdges th'"
proof -
  have "parentEdges x =
      {(n, p). \<exists>es. map_of (shape x) n = Some es \<and> p \<in> set es \<and> map_of (shape x) p \<noteq> None}"
    for x
    by (auto simp: parentEdges_def shape_map_of)
  then show "shape th = shape th' \<Longrightarrow> parentEdges th = parentEdges th'" by simp
qed

lemma demotes_shape: "demotes th th' \<Longrightarrow> shape th' = shape th"
  unfolding demotes_def shape_def
  by (induction rule: list_all2_induct) (auto simp: case_prod_beta)

lemma demotes_parentEdges: "demotes th th' \<Longrightarrow> parentEdges th' = parentEdges th"
  by (rule parentEdges_shape) (rule demotes_shape)

lemma demotes_None: "demotes th th' \<Longrightarrow> map_of th' n = None \<longleftrightarrow> map_of th n = None"
  using demotes_map_of[of th th' n] by (auto split: option.splits)

lemma demotes_upClosed:
  assumes "demotes th th'" and "newlyClosed th th'" and "upClosed th m"
  shows "upClosed th' m"
  unfolding upClosed_def
proof (intro impI allI)
  fix p assume ns: "\<not> structTarget th' m" and e: "(m, p) \<in> parentEdges th'"
  from e assms(1) have e': "(m, p) \<in> parentEdges th" by (simp add: demotes_parentEdges)
  show "\<not> structTarget th' p"
  proof (cases "structTarget th m")
    case True
    with ns e' assms(2) show ?thesis unfolding newlyClosed_def by blast
  next
    case False
    with assms(3) e' have "\<not> structTarget th p" by (auto simp: upClosed_def)
    with assms(1) show ?thesis by (auto dest: demotes_structTarget)
  qed
qed

lemma structTarget_setNonStruct:
  "structTarget (setNonStruct n th) m = (m \<noteq> n \<and> structTarget th m)"
  by (auto simp: structTarget_def map_of_setNonStruct split: option.splits)

lemma recursiveMakeNonStruct_effect:
  "recursiveMakeNonStruct depth typename th = Inr th' \<Longrightarrow>
     demotes th th' \<and> \<not> structTarget th' typename
     \<and> (\<forall>p. (typename, p) \<in> parentEdges th \<longrightarrow> \<not> structTarget th' p)
     \<and> newlyClosed th th'"
  "recursiveMakeNonStructExtends depth es th = Inr th' \<Longrightarrow>
     demotes th th'
     \<and> (\<forall>e \<in> set es. map_of th e \<noteq> None \<longrightarrow> \<not> structTarget th' e)
     \<and> newlyClosed th th'"
proof (induction depth typename th and depth es th arbitrary: th' and th'
    rule: recursiveMakeNonStruct_recursiveMakeNonStructExtends.induct)
  case (1 typename th)
  then show ?case by simp
next
  case (2 depth typename th)
  from "2.prems" obtain td where td: "map_of th typename = Some td"
    by (cases "map_of th typename") auto
  with "2.prems" have
    r: "recursiveMakeNonStructExtends depth (extends td) (setNonStruct typename th) = Inr th'"
    by simp
  let ?th0 = "setNonStruct typename th"
  from "2.IH"[OF td r] have d0: "demotes ?th0 th'"
    and ps: "\<forall>e \<in> set (extends td). map_of ?th0 e \<noteq> None \<longrightarrow> \<not> structTarget th' e"
    and nc: "newlyClosed ?th0 th'"
    by auto
  have d: "demotes th th'"
    using demotes_setNonStruct d0 by (rule demotes_trans)
  have self: "\<not> structTarget th' typename"
    using demotes_structTarget[OF d0, of typename] by (auto simp: structTarget_setNonStruct)
  have parents: "\<not> structTarget th' p" if "(typename, p) \<in> parentEdges th" for p
  proof -
    from that td have "p \<in> set (extends td)" "map_of th p \<noteq> None"
      by (auto simp: parentEdges_def)
    with demotes_None[OF demotes_setNonStruct, of typename th p] ps show ?thesis by simp
  qed
  have "newlyClosed th th'"
    unfolding newlyClosed_def
  proof (intro allI impI)
    fix m p assume m: "structTarget th m \<and> \<not> structTarget th' m" and e: "(m, p) \<in> parentEdges th"
    show "\<not> structTarget th' p"
    proof (cases "m = typename")
      case True
      with e parents show ?thesis by simp
    next
      case False
      with m have "structTarget ?th0 m" by (simp add: structTarget_setNonStruct)
      moreover from e have "(m, p) \<in> parentEdges ?th0"
        by (simp add: demotes_parentEdges[OF demotes_setNonStruct])
      ultimately show ?thesis using nc m unfolding newlyClosed_def by blast
    qed
  qed
  with d self parents show ?case by blast
next
  case (3 depth th)
  then show ?case by (simp add: demotes_refl newlyClosed_def)
next
  case (4 depth e es th)
  show ?case
  proof (cases "map_of th e")
    case None
    with "4.prems" have "recursiveMakeNonStructExtends depth es th = Inr th'" by simp
    from "4.IH"(1)[OF None this] None show ?thesis by auto
  next
    case (Some ed)
    with "4.prems" obtain th1 where r1: "recursiveMakeNonStruct depth e th = Inr th1"
      and r2: "recursiveMakeNonStructExtends depth es th1 = Inr th'"
      by (auto split: sum.splits)
    from Some have ne: "map_of th e \<noteq> None" by simp
    from "4.IH"(2)[OF ne r1] have d1: "demotes th th1" and s1: "\<not> structTarget th1 e"
      and nc1: "newlyClosed th th1"
      by auto
    from "4.IH"(3)[OF ne r1 r2] have d2: "demotes th1 th'"
      and ps2: "\<forall>x \<in> set es. map_of th1 x \<noteq> None \<longrightarrow> \<not> structTarget th' x"
      and nc2: "newlyClosed th1 th'"
      by auto
    have d: "demotes th th'" using d1 d2 by (rule demotes_trans)
    have "\<not> structTarget th' x" if "x \<in> set (e # es)" "map_of th x \<noteq> None" for x
    proof (cases "x = e")
      case True
      with s1 d2 show ?thesis by (auto dest: demotes_structTarget)
    next
      case False
      with that ps2 demotes_None[OF d1, of x] show ?thesis by auto
    qed
    moreover have "newlyClosed th th'"
      unfolding newlyClosed_def
    proof (intro allI impI)
      fix m p assume m: "structTarget th m \<and> \<not> structTarget th' m"
        and ed: "(m, p) \<in> parentEdges th"
      show "\<not> structTarget th' p"
      proof (cases "structTarget th1 m")
        case True
        with m ed nc2 demotes_parentEdges[OF d1] show ?thesis
          unfolding newlyClosed_def by blast
      next
        case False
        with m ed nc1 have "\<not> structTarget th1 p" unfolding newlyClosed_def by blast
        with d2 show ?thesis by (auto dest: demotes_structTarget)
      qed
    qed
    ultimately show ?thesis using d by blast
  qed
qed

lemma demotes_enumType: "demotes th th' \<Longrightarrow> enumType th' n = enumType th n"
  using demotes_map_of[of th th' n]
  by (auto simp: enumType_def split: option.splits)

lemma makeParentsNonStruct_upClosed:
  "makeParentsNonStruct depth ks th = Inr th' \<Longrightarrow>
     (\<forall>m. m \<notin> set ks \<or> enumType th m \<longrightarrow> upClosed th m) \<Longrightarrow> upClosed th' n"
proof (induction ks arbitrary: th)
  case Nil
  then show ?case by simp
next
  case (Cons k ks)
  from Cons.prems(1) obtain td where td: "map_of th k = Some td"
    by (cases "map_of th k") auto
  show ?case
  proof (cases "isEnum td \<or> representAsStruct td")
    case True
    with Cons.prems(1) td have r: "makeParentsNonStruct depth ks th = Inr th'"
      by (auto split: if_splits)
    have "upClosed th m" if "m \<notin> set ks \<or> enumType th m" for m
    proof (cases "m = k")
      case mk: True
      show ?thesis
      proof (cases "isEnum td")
        case True
        with td mk Cons.prems(2) show ?thesis by (simp add: enumType_def)
      next
        case False
        with True td mk show ?thesis by (simp add: upClosed_def structTarget_def)
      qed
    next
      case False
      with that Cons.prems(2) show ?thesis by auto
    qed
    with Cons.IH[OF r] show ?thesis by blast
  next
    case False
    with Cons.prems(1) td obtain th1 where r1: "recursiveMakeNonStruct depth k th = Inr th1"
      and r2: "makeParentsNonStruct depth ks th1 = Inr th'"
      by (auto split: sum.splits)
    from recursiveMakeNonStruct_effect(1)[OF r1] have d: "demotes th th1"
      and self: "\<not> structTarget th1 k"
      and parents: "\<forall>p. (k, p) \<in> parentEdges th \<longrightarrow> \<not> structTarget th1 p"
      and nc: "newlyClosed th th1"
      by auto
    have "upClosed th1 m" if "m \<notin> set ks \<or> enumType th1 m" for m
    proof (cases "m = k")
      case True
      with parents demotes_parentEdges[OF d] show ?thesis by (simp add: upClosed_def)
    next
      case False
      with that demotes_enumType[OF d, of m] Cons.prems(2) have "upClosed th m" by auto
      with d nc show ?thesis by (rule demotes_upClosed)
    qed
    with Cons.IH[OF r2] show ?thesis by blast
  qed
qed


lemma unclassified_not_struct:
  "unclassified th \<Longrightarrow> map_of th n = Some td \<Longrightarrow> \<not> representAsStruct td"
proof -
  assume u: "unclassified th" and m: "map_of th n = Some td"
  from m have "(n, td) \<in> set th" by (rule map_of_SomeD)
  with u have "td = newType\<lparr>extends := extends td, properties := properties td,
      tcomment := tcomment td\<rparr>"
    by (auto simp: unclassified_def)
  then have "representAsStruct td = representAsStruct (newType\<lparr>extends := extends td,
      properties := properties td, tcomment := tcomment td\<rparr>)"
    by simp
  then show ?thesis by (simp add: newType_def)
qed

lemma classifyTypes_upClosed:
  assumes run: "classifyTypes depth enums (map fst th) th = Inr th1"
    and dist: "distinct (map fst th)" and raw: "unclassified th"
  shows "upClosed th1 m"
  unfolding upClosed_def
proof (intro impI allI notI)
  fix p assume ns: "\<not> structTarget th1 m" and e: "(m, p) \<in> parentEdges th1"
    and sp: "structTarget th1 p"
  note sh = classifyTypes_effect(1)[OF run dist]
  from e parentEdges_shape[OF sh] have "(m, p) \<in> parentEdges th" by simp
  then obtain td where td: "map_of th m = Some td"
    and p: "p \<in> set (extends td)" and pk: "map_of th p \<noteq> None"
    unfolding parentEdges_def by blast
  from pk obtain pd where pd: "map_of th p = Some pd" by auto
  from td have mk: "m \<in> set (map fst th)" by (auto dest: map_of_SomeD intro: rev_image_eqI)
  from pd have pks: "p \<in> set (map fst th)" by (auto dest: map_of_SomeD intro: rev_image_eqI)
  from classifyTypes_effect(3)[OF run dist mk td unclassified_not_struct[OF raw td]] ns
  have nm: "\<not> structByLineage depth th m"
    and rm: "m \<notin> set STRUCTURED_HIERARCHIES \<longrightarrow>
      (\<exists>r. isSubClassOfAny depth th m STRUCTURED_HIERARCHIES = Inr r)"
    by auto
  from nm rm have all_false: "isSubClassOfAny depth th m STRUCTURED_HIERARCHIES = Inr False"
    and "m \<notin> set STRUCTURED_HIERARCHIES"
    by (auto simp: structByLineage_def)
  from classifyTypes_effect(3)[OF run dist pks pd unclassified_not_struct[OF raw pd]] sp
  have "structByLineage depth th p" by simp
  then obtain b where b: "b \<in> set STRUCTURED_HIERARCHIES"
    and pb: "p = b \<or> isSubClass depth th p b = Inr True"
    by (auto simp: structByLineage_def dest: isSubClassOfAny_True)
  from isSubClassOfAny_False[OF all_false b] have "isSubClass depth th m b = Inr False" .
  from isSubClass_parent[OF this td p] pb pk show False by auto
qed

lemma checkCycles_enum_unchanged:
  "checkCycles ks th = Inr th' \<Longrightarrow> enumType th m \<Longrightarrow> map_of th' m = map_of th m"
proof (induction ks arbitrary: th)
  case Nil
  then show ?case by simp
next
  case (Cons k ks)
  from Cons.prems(1) show ?case
  proof (cases rule: checkCycles_Cons_cases)
    case (demote td visited)
    with Cons.prems(2) have mk: "m \<noteq> k" by (auto simp: enumType_def)
    then have "enumType (setNonStruct k th) m"
      using Cons.prems(2) by (simp add: enumType_def map_of_setNonStruct)
    from Cons.IH[OF demote(5) this] mk show ?thesis by (simp add: map_of_setNonStruct)
  qed (use Cons.IH[of th] Cons.prems(2) in auto)
qed

lemma classify_phases:
  assumes "classify depth enums th = Inr th'"
  obtains th1 th2 where "classifyTypes depth enums (map fst th) th = Inr th1"
    and "checkCycles (map fst th1) th1 = Inr th2"
    and "makeParentsNonStruct depth (map fst th2) th2 = Inr th'"
  using assms unfolding classify_def by (auto split: sum.splits)

lemma classify_upClosed:
  assumes run: "classify depth enums th = Inr th'"
    and dist: "distinct (map fst th)" and raw: "unclassified th"
  shows "upClosed th' n"
proof -
  from run obtain th1 th2 where r1: "classifyTypes depth enums (map fst th) th = Inr th1"
    and r2: "checkCycles (map fst th1) th1 = Inr th2"
    and r3: "makeParentsNonStruct depth (map fst th2) th2 = Inr th'"
    by (rule classify_phases)
  note d2 = checkCycles_demotes[OF r2]
  have "upClosed th2 m" if "m \<notin> set (map fst th2) \<or> enumType th2 m" for m
  proof (cases "enumType th2 m")
    case True
    with demotes_enumType[OF d2] have en: "enumType th1 m" by simp
    from checkCycles_enum_unchanged[OF r2 en] have same: "map_of th2 m = map_of th1 m" .
    show ?thesis unfolding upClosed_def
    proof (intro impI allI)
      fix p assume "\<not> structTarget th2 m" and "(m, p) \<in> parentEdges th2"
      with same demotes_parentEdges[OF d2] have "\<not> structTarget th1 m" "(m, p) \<in> parentEdges th1"
        by (simp_all add: structTarget_def)
      with classifyTypes_upClosed[OF r1 dist raw, of m] have "\<not> structTarget th1 p"
        by (simp add: upClosed_def)
      with d2 show "\<not> structTarget th2 p" by (auto dest: demotes_structTarget)
    qed
  next
    case False
    with that have "m \<notin> fst ` set th2" by simp
    then have "map_of th2 m = None" by (simp add: map_of_eq_None_iff)
    then show ?thesis by (simp add: upClosed_def parentEdges_def)
  qed
  with makeParentsNonStruct_upClosed[OF r3] show ?thesis by blast
qed

text \<open>
  C3. After classification (flag assignment, cycle breaking, ancestor propagation) of a freshly
  loaded hierarchy, if a node is not struct-representable then no node reachable from it
  along \<open>extends\<close> edges within the hierarchy is struct-representable.
\<close>

theorem non_struct_ancestors_non_struct:
  assumes "classify depth enums th = Inr th'"
    and "distinct (map fst th)" and "unclassified th"
    and "map_of th' n = Some td" and "\<not> representAsStruct td"
    and "(n, a) \<in> (parentEdges th')\<^sup>*"
    and "map_of th' a = Some ad"
  shows "\<not> representAsStruct ad"
proof -
  from assms(6) have "\<not> structTarget th' a"
  proof (induction rule: rtrancl_induct)
    case base
    from assms(4,5) show ?case by (simp add: structTarget_def)
  next
    case (step y z)
    with classify_upClosed[OF assms(1-3), of y] show ?case by (simp add: upClosed_def)
  qed
  with assms(7) show ?thesis by (simp add: structTarget_def)
qed

lemma classify_rawStructPair: "classify 3 [] rawStructPair = Inr classifiedStructPair"
  by code_simp

lemma unclassified_rawStructPair: "unclassified rawStructPair"
  by (simp add: unclassified_def rawStructPair_def rawType_def newType_def)

theorem non_struct_ancestors_non_struct_witness:
  "\<not> structTarget classifiedStructPair ''Thing''"
proof -
  have keys: "distinct (map fst rawStructPair)" by (simp add: rawStructPair_def)
  have e1: "(''A'', ''StructuredValue'') \<in> parentEdges classifiedStructPair"
    by (simp add: parentEdges_def classifiedStructPair_def flagged_def rawType_def newType_def)
  have e2: "(''StructuredValue'', ''Thing'') \<in> parentEdges classifiedStructPair"
    by (simp add: parentEdges_def classifiedStructPair_def flagged_def rawType_def newType_def)
  from e1 e2 have reach: "(''A'', ''Thing'') \<in> (parentEdges classifiedStructPair)\<^sup>*"
    by (meson r_into_rtrancl rtrancl_trans)
  obtain td ad where n: "map_of classifiedStructPair ''A'' = Some td" "\<not> representAsStruct td"
    and a: "map_of classifiedStructPair ''Thing'' = Some ad"
    by (simp add: classifiedStructPair_def flagged_def rawType_def newType_def)
  from non_struct_ancestors_non_struct[OF classify_rawStructPair keys unclassified_rawStructPair
      n reach a] a
  show ?thesis by (simp add: structTarget_def)
qed

section \<open>Acyclicity after classification\<close>














section \<open>Topological order\<close>

lemma parentsFirst_Nil: "parentsFirst th []"
  by (simp add: parentsFirst_def)

lemma parentsFirst_setAdd:
  assumes pf: "parentsFirst th order" and td: "map_of th t = Some td"
    and em: "emittable th t"
    and ps: "\<forall>p \<in> set (extends td). emittable th p \<longrightarrow> p \<in> set order"
  shows "parentsFirst th (setAdd t order)"
proof (cases "t \<in> set order")
  case True
  with pf show ?thesis by (simp add: setAdd_def)
next
  case False
  have "emittable th ((order @ [t]) ! i) \<and>
        (\<forall>td'. map_of th ((order @ [t]) ! i) = Some td' \<longrightarrow>
           (\<forall>p \<in> set (extends td'). emittable th p \<longrightarrow> p \<in> set (take i (order @ [t]))))"
    if i: "i < length (order @ [t])" for i
  proof (cases "i < length order")
    case True
    with pf show ?thesis by (simp add: parentsFirst_def nth_append)
  next
    case False
    with i have "i = length order" by simp
    with td em ps show ?thesis by simp
  qed
  with False show ?thesis by (simp add: setAdd_def parentsFirst_def)
qed

lemma toposort_invariant:
  "toposort depth th typename order = Inr order' \<Longrightarrow> parentsFirst th order \<Longrightarrow>
     parentsFirst th order' \<and> set order \<subseteq> set order' \<and> (emittable th typename \<longrightarrow> typename \<in> set order')"
  "toposortExtends depth th es order = Inr order' \<Longrightarrow> parentsFirst th order \<Longrightarrow>
     parentsFirst th order' \<and> set order \<subseteq> set order' \<and> (\<forall>e \<in> set es. emittable th e \<longrightarrow> e \<in> set order')"
proof (induction depth th typename order and depth th es order arbitrary: order' and order'
    rule: toposort_toposortExtends.induct)
  case (1 th typename order)
  then show ?case by simp
next
  case (2 depth th typename order)
  from "2.prems"(1) obtain td where td: "map_of th typename = Some td"
    by (cases "map_of th typename") auto
  show ?case
  proof (cases "isAction td \<or> isEnum td \<or> representAsStruct td")
    case True
    with "2.prems" td show ?thesis by (auto simp: emittable_def)
  next
    case False
    with "2.prems"(1) td obtain order1 where
      r: "toposortExtends depth th (extends td) order = Inr order1"
      and o: "order' = setAdd typename order1"
      by (auto split: sum.splits)
    from "2.IH"[OF td False r "2.prems"(2)] have
      ih: "parentsFirst th order1" "set order \<subseteq> set order1"
      "\<forall>e \<in> set (extends td). emittable th e \<longrightarrow> e \<in> set order1"
      by auto
    from td False have em: "emittable th typename" by (simp add: emittable_def)
    from parentsFirst_setAdd[OF ih(1) td em ih(3)] ih(2) o show ?thesis
      by (auto simp: setAdd_def)
  qed
next
  case (3 depth th order)
  then show ?case by simp
next
  case (4 depth th e es order)
  show ?case
  proof (cases "map_of th e = None")
    case True
    with "4.prems" have "toposortExtends depth th es order = Inr order'" by simp
    from "4.IH"(1)[OF True this "4.prems"(2)] True show ?thesis
      by (auto simp: emittable_def)
  next
    case False
    with "4.prems"(1) obtain order1 where r1: "toposort depth th e order = Inr order1"
      and r2: "toposortExtends depth th es order1 = Inr order'"
      by (auto split: sum.splits)
    from "4.IH"(2)[OF False r1 "4.prems"(2)] have
      ih1: "parentsFirst th order1" "set order \<subseteq> set order1" "emittable th e \<longrightarrow> e \<in> set order1"
      by auto
    from "4.IH"(3)[OF False r1 r2 ih1(1)] ih1 show ?thesis by auto
  qed
qed

lemma toposortAll_invariant:
  "toposortAll depth th ks order = Inr order' \<Longrightarrow> parentsFirst th order \<Longrightarrow>
     parentsFirst th order'"
proof (induction ks arbitrary: order)
  case Nil
  then show ?case by simp
next
  case (Cons k ks)
  show ?case
  proof (cases "k \<in> set order")
    case True
    with Cons show ?thesis by simp
  next
    case False
    with Cons.prems(1) obtain order1 where r1: "toposort depth th k order = Inr order1"
      and r2: "toposortAll depth th ks order1 = Inr order'"
      by (auto split: sum.splits)
    from toposort_invariant(1)[OF r1 Cons.prems(2)] Cons.IH[OF r2] show ?thesis by simp
  qed
qed

text \<open>
  C9. In the sequence produced by the topological sort (the types that are not actions, not
  enumerations and not struct-representable), every parent of a member that is itself a
  member stands at an earlier position.
\<close>

theorem toposort_parents_earlier:
  assumes "toposortAll depth th (map fst th) [] = Inr order"
    and "i < length order" and "map_of th (order ! i) = Some td"
    and "p \<in> set (extends td)" and "p \<in> set order"
  shows "\<exists>j < i. order ! j = p"
proof -
  from toposortAll_invariant[OF assms(1) parentsFirst_Nil] have pf: "parentsFirst th order" .
  from assms(5) obtain k where "k < length order" "order ! k = p"
    by (auto simp: in_set_conv_nth)
  with pf have "emittable th p" by (auto simp: parentsFirst_def)
  with pf assms(2-4) have "p \<in> set (take i order)" by (auto simp: parentsFirst_def)
  then obtain j where "j < length (take i order)" "take i order ! j = p"
    by (auto simp: in_set_conv_nth)
  then show ?thesis by auto
qed

lemma toposort_classifiedStructPair:
  "toposortAll 3 classifiedStructPair (map fst classifiedStructPair) []
     = Inr [''Thing'', ''StructuredValue'', ''A'']"
  by code_simp

theorem toposort_parents_earlier_witness:
  "\<exists>j < 2. [''Thing'', ''StructuredValue'', ''A''] ! j = ''StructuredValue''"
proof -
  obtain td where td: "map_of classifiedStructPair ([''Thing'', ''StructuredValue'', ''A''] ! 2) = Some td"
    "''StructuredValue'' \<in> set (extends td)"
    by (simp add: classifiedStructPair_def flagged_def rawType_def newType_def)
  from toposort_parents_earlier[OF toposort_classifiedStructPair _ td] show ?thesis by simp
qed

section \<open>Collecting the properties of a compound type\<close>

lemma collectOwn_keeps:
  "map_of allproperties p = Some d \<Longrightarrow> map_of (collectOwn own allproperties) p = Some d"
proof (induction own arbitrary: allproperties)
  case Nil
  then show ?case by simp
next
  case (Cons a own)
  obtain pn pd where a: "a = (pn, pd)" by (cases a)
  show ?case
  proof (cases "map_of allproperties pn = None")
    case True
    with Cons.prems have "map_of (allproperties @ [(pn, pd)]) p = Some d"
      by (simp add: map_add_def)
    from Cons.IH[OF this] True a show ?thesis by simp
  next
    case False
    with Cons a show ?thesis by auto
  qed
qed

lemma collectOwn_adds:
  "map_of allproperties p = None \<Longrightarrow>
     map_of (collectOwn own allproperties) p = map_of own p"
proof (induction own arbitrary: allproperties)
  case Nil
  then show ?case by simp
next
  case (Cons a own)
  obtain pn pd where a: "a = (pn, pd)" by (cases a)
  show ?case
  proof (cases "p = pn")
    case True
    with Cons.prems have "map_of (allproperties @ [(pn, pd)]) p = Some pd"
      by (simp add: map_add_def)
    from collectOwn_keeps[OF this] Cons.prems True a show ?thesis by simp
  next
    case False
    show ?thesis
    proof (cases "map_of allproperties pn = None")
      case True
      from Cons.prems False have "map_of (allproperties @ [(pn, pd)]) p = None"
        by (simp add: map_add_def)
      from Cons.IH[OF this] True False a show ?thesis by simp
    next
      case nn: False
      with Cons.IH[OF Cons.prems] False a show ?thesis by auto
    qed
  qed
qed

lemma collectOwn_distinct:
  "distinct (map fst allproperties) \<Longrightarrow> distinct (map fst (collectOwn own allproperties))"
proof (induction own arbitrary: allproperties)
  case Nil
  then show ?case by simp
next
  case (Cons a own)
  obtain pn pd where a: "a = (pn, pd)" by (cases a)
  show ?case
  proof (cases "map_of allproperties pn = None")
    case True
    then have "pn \<notin> fst ` set allproperties" by (simp add: map_of_eq_None_iff)
    with Cons.prems have "distinct (map fst (allproperties @ [(pn, pd)]))" by simp
    from Cons.IH[OF this] True a show ?thesis by simp
  next
    case False
    with Cons a show ?thesis by auto
  qed
qed

lemma recursiveCollect_keeps:
  "recursiveCollectProperties depth th start typename allproperties = Inr collected \<Longrightarrow>
     map_of allproperties p = Some d \<Longrightarrow> map_of collected p = Some d"
  "recursiveCollectExtends depth th start es allproperties = Inr collected \<Longrightarrow>
     map_of allproperties p = Some d \<Longrightarrow> map_of collected p = Some d"
proof (induction depth th start typename allproperties and depth th start es allproperties
    arbitrary: collected and collected
    rule: recursiveCollectProperties_recursiveCollectExtends.induct)
  case (1 th startingTypename typename allproperties)
  then show ?case by simp
next
  case (2 depth th startingTypename typename allproperties)
  show ?case
  proof (cases "map_of th typename")
    case None
    with "2.prems" show ?thesis by simp
  next
    case (Some td)
    show ?thesis
    proof (cases "startingTypename \<notin> set STRUCT_INCLUDE_THING_PROPERTIES \<and> \<not> isStructSubType td")
      case True
      with Some "2.prems" show ?thesis by auto
    next
      case False
      note own = collectOwn_keeps[OF "2.prems"(2), of "properties td"]
      show ?thesis
      proof (cases "startingTypename \<notin> set STRUCT_INCLUDE_THING_PROPERTIES
          \<and> typename \<in> set STRUCTURED_HIERARCHIES")
        case True
        with Some False "2.prems"(1) own show ?thesis by (auto simp: Let_def)
      next
        case stop: False
        with Some False "2.prems"(1) have
          "recursiveCollectExtends depth th startingTypename (extends td)
             (collectOwn (properties td) allproperties) = Inr collected"
          by (auto simp: Let_def)
        from "2.IH"[OF Some False refl stop this own] show ?thesis .
      qed
    qed
  qed
next
  case (3 depth th startingTypename allproperties)
  then show ?case by simp
next
  case (4 depth th startingTypename e es allproperties)
  from "4.prems"(1) obtain c1 where
    r1: "recursiveCollectProperties depth th startingTypename e allproperties = Inr c1"
    and r2: "recursiveCollectExtends depth th startingTypename es c1 = Inr collected"
    by (auto split: sum.splits)
  from "4.IH"(2)[OF r1 r2 "4.IH"(1)[OF r1 "4.prems"(2)]] show ?case .
qed

text \<open>
  What has been collected is never overwritten by a later visit, and a visited node
  contributes its own definition of every name not collected before, ahead of its
  ancestors.
\<close>

lemma recursiveCollect_own_first:
  assumes "recursiveCollectProperties depth th start typename allproperties = Inr collected"
  shows "(\<forall>p d. map_of allproperties p = Some d \<longrightarrow> map_of collected p = Some d)
    \<and> (\<forall>td p d. map_of th typename = Some td
          \<and> (start \<in> set STRUCT_INCLUDE_THING_PROPERTIES \<or> isStructSubType td)
          \<and> map_of allproperties p = None \<and> map_of (properties td) p = Some d
        \<longrightarrow> map_of collected p = Some d)"
proof (intro conjI allI impI)
  fix p d assume "map_of allproperties p = Some d"
  with assms show "map_of collected p = Some d" by (rule recursiveCollect_keeps(1))
next
  fix td p d
  assume h: "map_of th typename = Some td
    \<and> (start \<in> set STRUCT_INCLUDE_THING_PROPERTIES \<or> isStructSubType td)
    \<and> map_of allproperties p = None \<and> map_of (properties td) p = Some d"
  then have own: "map_of (collectOwn (properties td) allproperties) p = Some d"
    by (simp add: collectOwn_adds)
  from assms obtain k where depth: "depth = Suc k" by (cases depth) auto
  show "map_of collected p = Some d"
  proof (cases "start \<notin> set STRUCT_INCLUDE_THING_PROPERTIES
      \<and> typename \<in> set STRUCTURED_HIERARCHIES")
    case True
    with assms depth h own show ?thesis by (auto simp: Let_def)
  next
    case False
    with assms depth h have
      "recursiveCollectExtends k th start (extends td)
         (collectOwn (properties td) allproperties) = Inr collected"
      by (auto simp: Let_def)
    from recursiveCollect_keeps(2)[OF this own] show ?thesis .
  qed
qed

lemma collect_AggregateOffer:
  "recursiveCollectProperties 3 offerLineage ''AggregateOffer'' ''AggregateOffer'' [] =
     Inr [(''price'', \<lparr>types = [''Text''], comment = ''The lowest price.''\<rparr>),
          (''offerCount'', \<lparr>types = [''Integer''], comment = ''The number of offers.''\<rparr>),
          (''seller'', \<lparr>types = [''Organization''], comment = ''The seller.''\<rparr>)]"
  by code_simp

lemma map_of_filter_other:
  "k \<noteq> a \<Longrightarrow> map_of (filter (\<lambda>q. fst q \<noteq> a) ps) k = map_of ps k"
  by (induction ps) auto

lemma map_of_firstSeen: "map_of (firstSeen ps) k = map_of ps k"
proof (induction ps rule: firstSeen.induct)
  case 1
  show ?case by simp
next
  case (2 p ps)
  then show ?case by (cases "k = fst p") (simp_all add: map_of_filter_other)
qed

lemma firstSeen_filter:
  "firstSeen (filter (\<lambda>q. P (fst q)) ps) = filter (\<lambda>q. P (fst q)) (firstSeen ps)"
proof (induction ps rule: firstSeen.induct)
  case 1
  show ?case by simp
next
  case (2 p ps)
  have comm: "filter (\<lambda>q. fst q \<noteq> fst p) (filter (\<lambda>q. P (fst q)) ps)
      = filter (\<lambda>q. P (fst q)) (filter (\<lambda>q. fst q \<noteq> fst p) ps)"
    by (induction ps) auto
  show ?case
  proof (cases "P (fst p)")
    case True
    with 2 comm show ?thesis by simp
  next
    case False
    have "filter (\<lambda>q. P (fst q)) (filter (\<lambda>q. fst q \<noteq> fst p) ps) = filter (\<lambda>q. P (fst q)) ps"
      using False by (induction ps) auto
    with False 2 show ?thesis by simp
  qed
qed

lemma collectOwn_firstSeen:
  "collectOwn own allproperties
     = allproperties @ firstSeen (filter (\<lambda>q. fst q \<notin> fst ` set allproperties) own)"
proof (induction own arbitrary: allproperties)
  case Nil
  show ?case by simp
next
  case (Cons a own)
  obtain pn pd where a: "a = (pn, pd)" by (cases a)
  show ?case
  proof (cases "map_of allproperties pn = None")
    case False
    then have "pn \<in> fst ` set allproperties" by (simp add: map_of_eq_None_iff)
    with False a Cons.IH[of allproperties] show ?thesis by simp
  next
    case True
    then have nin: "pn \<notin> fst ` set allproperties" by (simp add: map_of_eq_None_iff)
    have "filter (\<lambda>q. fst q \<notin> fst ` set (allproperties @ [(pn, pd)])) own
        = filter (\<lambda>q. fst q \<noteq> pn) (filter (\<lambda>q. fst q \<notin> fst ` set allproperties) own)"
      by (induction own) auto
    with True nin a Cons.IH[of "allproperties @ [(pn, pd)]"] show ?thesis by simp
  qed
qed

lemma firstSeen_append:
  "firstSeen (xs @ ys) = firstSeen xs @ firstSeen (filter (\<lambda>q. fst q \<notin> fst ` set xs) ys)"
proof (induction xs arbitrary: ys rule: firstSeen.induct)
  case 1
  show ?case by simp
next
  case (2 p ps)
  have "filter (\<lambda>q. fst q \<notin> fst ` set (filter (\<lambda>q. fst q \<noteq> fst p) ps))
          (filter (\<lambda>q. fst q \<noteq> fst p) ys)
      = filter (\<lambda>q. fst q \<notin> fst ` set (p # ps)) ys"
    by (induction ys) auto
  with "2.IH"[of "filter (\<lambda>q. fst q \<noteq> fst p) ys"] show ?case by simp
qed

lemma firstSeen_keys: "fst ` set (firstSeen ps) = fst ` set ps"
proof (induction ps rule: firstSeen.induct)
  case 1
  show ?case by simp
next
  case (2 p ps)
  then show ?case by auto
qed

lemma collectOwn_append:
  "collectOwn own (firstSeen xs) = firstSeen (xs @ own)"
  by (simp add: collectOwn_firstSeen firstSeen_append firstSeen_keys)

lemma recursiveCollect_walk:
  "recursiveCollectProperties depth th start typename (firstSeen seen) = Inr collected \<Longrightarrow>
     \<exists>nodes. walkParents depth th start typename = Some nodes
       \<and> collected = firstSeen (seen @ concat (map (propertiesOf th) nodes))"
  "recursiveCollectExtends depth th start es (firstSeen seen) = Inr collected \<Longrightarrow>
     \<exists>nodes. walkParentsOf depth th start es = Some nodes
       \<and> collected = firstSeen (seen @ concat (map (propertiesOf th) nodes))"
proof (induction depth th start typename "firstSeen seen" and depth th start es "firstSeen seen"
    arbitrary: seen collected and seen collected
    rule: recursiveCollectProperties_recursiveCollectExtends.induct)
  case (1 th startingTypename typename)
  then show ?case by simp
next
  case (2 depth th startingTypename typename)
  show ?case
  proof (cases "map_of th typename")
    case None
    with "2.prems" show ?thesis by simp
  next
    case (Some td)
    show ?thesis
    proof (cases "startingTypename \<notin> set STRUCT_INCLUDE_THING_PROPERTIES \<and> \<not> isStructSubType td")
      case True
      with Some "2.prems" show ?thesis by auto
    next
      case False
      have own: "collectOwn (properties td) (firstSeen seen) = firstSeen (seen @ properties td)"
        by (rule collectOwn_append)
      have props: "propertiesOf th typename = properties td"
        using Some by (simp add: propertiesOf_def)
      show ?thesis
      proof (cases "startingTypename \<notin> set STRUCT_INCLUDE_THING_PROPERTIES
          \<and> typename \<in> set STRUCTURED_HIERARCHIES")
        case True
        with Some False "2.prems" own props show ?thesis by (auto simp: Let_def)
      next
        case stop: False
        with Some False "2.prems" own have
          r: "recursiveCollectExtends depth th startingTypename (extends td)
             (firstSeen (seen @ properties td)) = Inr collected"
          by (auto simp: Let_def)
        from "2.hyps"[OF Some False own[symmetric] stop r]
        obtain nodes where "walkParentsOf depth th startingTypename (extends td) = Some nodes"
          "collected = firstSeen ((seen @ properties td) @ concat (map (propertiesOf th) nodes))"
          by blast
        with Some False stop props show ?thesis by auto
      qed
    qed
  qed
next
  case (3 depth th startingTypename)
  then show ?case by simp
next
  case (4 depth th startingTypename e es)
  from "4.prems" obtain c1 where
    r1: "recursiveCollectProperties depth th startingTypename e (firstSeen seen) = Inr c1"
    and r2: "recursiveCollectExtends depth th startingTypename es c1 = Inr collected"
    by (auto split: sum.splits)
  from "4.hyps"(1)[OF refl r1] obtain n1 where
    n1: "walkParents depth th startingTypename e = Some n1"
    "c1 = firstSeen (seen @ concat (map (propertiesOf th) n1))"
    by blast
  from "4.hyps"(2)[OF r1[unfolded n1(2)] r2[unfolded n1(2)]] obtain n2 where
    n2: "walkParentsOf depth th startingTypename es = Some n2"
    "collected = firstSeen ((seen @ concat (map (propertiesOf th) n1))
        @ concat (map (propertiesOf th) n2))"
    by blast
  with n1 show ?case by simp
qed

text \<open>
  C8. The properties collected for a compound type are those of the nodes visited by the
  walk from the starting node up through its parents, recursively and in visitation order,
  and for every property name the first definition seen wins: a property collected from
  a more specific node is not overwritten by an ancestor's property of the same name.
\<close>

theorem first_seen_property_wins:
  assumes "recursiveCollectProperties depth th start typename [] = Inr collected"
  shows "\<exists>nodes. walkParents depth th start typename = Some nodes
           \<and> collected = firstSeen (concat (map (propertiesOf th) nodes))
           \<and> (\<forall>p. map_of collected p = map_of (concat (map (propertiesOf th) nodes)) p)"
proof -
  from assms have "recursiveCollectProperties depth th start typename (firstSeen []) = Inr collected"
    by simp
  from recursiveCollect_walk(1)[OF this] obtain nodes where
    "walkParents depth th start typename = Some nodes"
    "collected = firstSeen (concat (map (propertiesOf th) nodes))"
    by auto
  then show ?thesis by (auto simp: map_of_firstSeen)
qed

lemma walk_AggregateOffer:
  "walkParents 3 offerLineage ''AggregateOffer'' ''AggregateOffer'' = Some [''AggregateOffer'', ''Offer'']"
  by code_simp

theorem first_seen_property_wins_witness:
  "firstSeen (concat (map (propertiesOf offerLineage) [''AggregateOffer'', ''Offer'']))
   = [(''price'', \<lparr>types = [''Text''], comment = ''The lowest price.''\<rparr>),
      (''offerCount'', \<lparr>types = [''Integer''], comment = ''The number of offers.''\<rparr>),
      (''seller'', \<lparr>types = [''Organization''], comment = ''The seller.''\<rparr>)]"
proof -
  from first_seen_property_wins[OF collect_AggregateOffer] obtain nodes where
    w: "walkParents 3 offerLineage ''AggregateOffer'' ''AggregateOffer'' = Some nodes"
    and eq: "[(''price'', \<lparr>types = [''Text''], comment = ''The lowest price.''\<rparr>),
        (''offerCount'', \<lparr>types = [''Integer''], comment = ''The number of offers.''\<rparr>),
        (''seller'', \<lparr>types = [''Organization''], comment = ''The seller.''\<rparr>)]
       = firstSeen (concat (map (propertiesOf offerLineage) nodes))"
    by blast
  from w walk_AggregateOffer have n: "nodes = [''AggregateOffer'', ''Offer'']" by simp
  from eq[unfolded n] show ?thesis by (rule sym)
qed

section \<open>Unresolved properties\<close>

lemma bestType_Some: "best \<noteq> None \<Longrightarrow> bestType th ts best \<noteq> None"
  by (induction ts arbitrary: best) (simp_all add: Let_def)

lemma bestType_None: "bestType th ts best = None \<longleftrightarrow> ts = [] \<and> best = None"
proof (cases ts)
  case Nil
  then show ?thesis by simp
next
  case (Cons t ts')
  have "bestType th ts' (Some (t, typeScore th t)) \<noteq> None" by (rule bestType_Some) simp
  moreover have "best \<noteq> None \<Longrightarrow> bestType th ts' best \<noteq> None" by (rule bestType_Some)
  ultimately show ?thesis using Cons by (cases best) (auto simp: Let_def)
qed

lemma bestType_upper:
  "bestType th ts best = Some (b, s) \<Longrightarrow>
     (\<forall>t \<in> set ts. typeScore th t \<le> s) \<and> (\<forall>b0 s0. best = Some (b0, s0) \<longrightarrow> s0 \<le> s)"
proof (induction ts arbitrary: best)
  case Nil
  then show ?case by simp
next
  case (Cons t ts)
  show ?case
  proof (cases "case best of None \<Rightarrow> True | Some (b, bestScore) \<Rightarrow> typeScore th t > bestScore")
    case True
    with Cons.prems have "bestType th ts (Some (t, typeScore th t)) = Some (b, s)"
      by (simp add: Let_def)
    from Cons.IH[OF this] have ih: "\<forall>x \<in> set ts. typeScore th x \<le> s" "typeScore th t \<le> s"
      by auto
    from True ih(2) have "\<forall>b0 s0. best = Some (b0, s0) \<longrightarrow> s0 \<le> s" by auto
    with ih show ?thesis by simp
  next
    case False
    with Cons.prems have "bestType th ts best = Some (b, s)" by (simp add: Let_def)
    from Cons.IH[OF this] have ih: "\<forall>x \<in> set ts. typeScore th x \<le> s"
      "\<forall>b0 s0. best = Some (b0, s0) \<longrightarrow> s0 \<le> s"
      by auto
    from False obtain b0 s0 where "best = Some (b0, s0)" "typeScore th t \<le> s0"
      by (cases best) auto
    with ih show ?thesis by auto
  qed
qed

lemma bestType_attained:
  "bestType th ts best = Some (b, s) \<Longrightarrow>
     (b \<in> set ts \<and> typeScore th b = s) \<or> best = Some (b, s)"
proof (induction ts arbitrary: best)
  case Nil
  then show ?case by simp
next
  case (Cons t ts)
  show ?case
  proof (cases "case best of None \<Rightarrow> True | Some (b, bestScore) \<Rightarrow> typeScore th t > bestScore")
    case True
    with Cons.prems have "bestType th ts (Some (t, typeScore th t)) = Some (b, s)"
      by (simp add: Let_def)
    from Cons.IH[OF this] show ?thesis by auto
  next
    case False
    with Cons.prems have "bestType th ts best = Some (b, s)" by (simp add: Let_def)
    from Cons.IH[OF this] show ?thesis by auto
  qed
qed

lemma bestType_negative:
  "(case bestType th ts None of None \<Rightarrow> True | Some (b, s) \<Rightarrow> s < 0)
     \<longleftrightarrow> (\<forall>t \<in> set ts. typeScore th t < 0)"
proof (cases "bestType th ts None")
  case None
  then show ?thesis by (simp add: bestType_None)
next
  case (Some bs)
  obtain b s where bs: "bs = (b, s)" by (cases bs)
  from bestType_upper[of th ts None b s] Some bs have
    le: "\<forall>t \<in> set ts. typeScore th t \<le> s" by simp
  from bestType_attained[of th ts None b s] Some bs have
    ex: "b \<in> set ts" "typeScore th b = s" by auto
  show ?thesis
  proof
    assume "case bestType th ts None of None \<Rightarrow> True | Some (b, s) \<Rightarrow> s < 0"
    with Some bs have "s < 0" by simp
    with le show "\<forall>t \<in> set ts. typeScore th t < 0" by fastforce
  next
    assume "\<forall>t \<in> set ts. typeScore th t < 0"
    with ex have "s < 0" by auto
    with Some bs show "case bestType th ts None of None \<Rightarrow> True | Some (b, s) \<Rightarrow> s < 0"
      by simp
  qed
qed

lemma getBestPropertyType_none_iff:
  "getBestPropertyType depth this lib th propname property = Inr (None, None)
     \<longleftrightarrow> propname \<in> set BLACKLISTED_PROPERTIES \<or> (\<forall>t \<in> set (types property). typeScore th t < 0)"
proof (cases "propname \<in> set BLACKLISTED_PROPERTIES")
  case True
  then show ?thesis by (simp add: getBestPropertyType.simps)
next
  case nb: False
  show ?thesis
  proof (cases "bestType th (types property) None")
    case None
    with nb bestType_negative[of th "types property"] show ?thesis
      by (simp add: getBestPropertyType.simps)
  next
    case (Some bs)
    obtain best s where bs: "bs = (best, s)" by (cases bs)
    show ?thesis
    proof (cases "s < 0")
      case True
      with nb Some bs bestType_negative[of th "types property"] show ?thesis
        by (simp add: getBestPropertyType.simps)
    next
      case False
      with Some bs bestType_negative[of th "types property"]
      have "\<not> (\<forall>t \<in> set (types property). typeScore th t < 0)" by simp
      moreover from nb Some bs False
      have "getBestPropertyType depth this lib th propname property \<noteq> Inr (None, None)"
        by (auto simp: getBestPropertyType.simps split: option.splits sum.splits)
      ultimately show ?thesis using nb by simp
    qed
  qed
qed

lemma typeScore_negative_iff:
  "typeScore th t < 0 \<longleftrightarrow> map_of th t = None \<and> \<not> inBUILTIN t"
  by (auto simp: typeScore_def inBUILTIN_def BUILTIN_TYPEMAP_def split: option.splits)

text \<open>
  C6. \<open>getBestPropertyType\<close> returns (none, none) exactly when the property is block-listed or
  every candidate scores below zero (no candidate at all included); a candidate scores
  5 as an enumeration, else 2 as \<open>Text\<close>, else 4 as a builtin, else -1 when unknown, else
  3 when struct-representable and 1 otherwise (provided no type is named \<open>isItemList\<close>); a
  property that resolves to none is skipped by the compound-field loop and by the argument
  loop, which go on with the remaining properties.
\<close>

theorem unresolved_property_dropped:
  "(getBestPropertyType depth this lib th propname property = Inr (None, None)
      \<longleftrightarrow> propname \<in> set BLACKLISTED_PROPERTIES
          \<or> (\<forall>t \<in> set (types property). typeScore th t < 0))
   \<and> (typeScore th t =
        (if \<exists>td. map_of th t = Some td \<and> isEnum td then 5
         else if t = ''Text'' then 2
         else if inBUILTIN t then 4
         else if map_of th t = None then - 1
         else if map_of th ''isItemList'' \<noteq> None then 0
         else if structTarget th t then 3 else 1))
   \<and> (getBestPropertyType depth this lib th (fst p) (snd p) = Inr (None, None) \<longrightarrow>
        compoundFields depth this lib th (p # rest) = compoundFields depth this lib th rest
        \<and> propertyArguments depth this lib th typename (p # rest)
            = propertyArguments depth this lib th typename rest)"
proof (intro conjI impI)
  show "getBestPropertyType depth this lib th propname property = Inr (None, None)
      \<longleftrightarrow> propname \<in> set BLACKLISTED_PROPERTIES
          \<or> (\<forall>t \<in> set (types property). typeScore th t < 0)"
    by (rule getBestPropertyType_none_iff)
next
  show "typeScore th t =
        (if \<exists>td. map_of th t = Some td \<and> isEnum td then 5
         else if t = ''Text'' then 2
         else if inBUILTIN t then 4
         else if map_of th t = None then - 1
         else if map_of th ''isItemList'' \<noteq> None then 0
         else if structTarget th t then 3 else 1)"
    by (cases "map_of th t") (auto simp: typeScore_def structTarget_def)
next
  assume "getBestPropertyType depth this lib th (fst p) (snd p) = Inr (None, None)"
  then show "compoundFields depth this lib th (p # rest) = compoundFields depth this lib th rest"
    by simp
next
  assume "getBestPropertyType depth this lib th (fst p) (snd p) = Inr (None, None)"
  then show "propertyArguments depth this lib th typename (p # rest)
      = propertyArguments depth this lib th typename rest"
    by simp
qed

lemma classify_rawCatalog: "classify 4 [] rawCatalog = Inr classifiedCatalog"
  by code_simp

lemma brand_unknown: "\<forall>t \<in> set [''Brand'']. typeScore classifiedCatalog t < 0"
  by code_simp

theorem unresolved_property_dropped_witness:
  "compoundFields 2 exampleProcessor exampleLibrary classifiedCatalog
     [(''brand'', \<lparr>types = [''Brand''], comment = ''The brand.''\<rparr>),
      (''of'', \<lparr>types = [''Text''], comment = ''The material.''\<rparr>)]
   = compoundFields 2 exampleProcessor exampleLibrary classifiedCatalog
     [(''of'', \<lparr>types = [''Text''], comment = ''The material.''\<rparr>)]"
proof -
  note inst = unresolved_property_dropped[of 2 exampleProcessor exampleLibrary classifiedCatalog
      "''brand''" "\<lparr>types = [''Brand''], comment = ''The brand.''\<rparr>" "''Brand''"
      "(''brand'', \<lparr>types = [''Brand''], comment = ''The brand.''\<rparr>)"
      "[(''of'', \<lparr>types = [''Text''], comment = ''The material.''\<rparr>)]" "''Product''"]
  from inst brand_unknown have
    "getBestPropertyType 2 exampleProcessor exampleLibrary classifiedCatalog ''brand''
       \<lparr>types = [''Brand''], comment = ''The brand.''\<rparr> = Inr (None, None)"
    by simp
  with inst show ?thesis by simp
qed

section \<open>Fields of a compound type\<close>

lemma compoundFields_names:
  "compoundFields depth this lib th ps = Inr flds \<Longrightarrow>
     map fst flds = map fst (filter (survives depth this lib th) ps)"
proof (induction ps arbitrary: flds)
  case Nil
  then show ?case by simp
next
  case (Cons p ps)
  from Cons.prems obtain best ttType where
    r: "getBestPropertyType depth this lib th (fst p) (snd p) = Inr (best, ttType)"
    by (cases "getBestPropertyType depth this lib th (fst p) (snd p)") auto
  show ?case
  proof (cases ttType)
    case None
    with r Cons show ?thesis by (simp add: survives_def)
  next
    case (Some t)
    with r Cons.prems obtain rest where rest: "compoundFields depth this lib th ps = Inr rest"
      and flds: "map fst flds = fst p # map fst rest"
      by (cases "compoundFields depth this lib th ps") auto
    from Cons.IH[OF rest] flds r Some show ?thesis by (simp add: survives_def)
  qed
qed

lemma compoundFields_returns:
  "\<forall>p \<in> set ps. \<exists>r. getBestPropertyType depth this lib th (fst p) (snd p) = Inr r \<Longrightarrow>
     \<exists>flds. compoundFields depth this lib th ps = Inr flds"
proof (induction ps)
  case Nil
  show ?case by simp
next
  case (Cons p ps)
  then obtain best ttType rest where
    r: "getBestPropertyType depth this lib th (fst p) (snd p) = Inr (best, ttType)"
    and rest: "compoundFields depth this lib th ps = Inr rest"
    by fastforce
  then show ?case by (cases ttType) auto
qed

lemma AggregateOffer_resolutions:
  "getBestPropertyType 3 exampleProcessor exampleLibrary offerLineage ''price''
     \<lparr>types = [''Text''], comment = ''The lowest price.''\<rparr> = Inr (Some ''Text'', Some Currency)"
  "getBestPropertyType 3 exampleProcessor exampleLibrary offerLineage ''offerCount''
     \<lparr>types = [''Integer''], comment = ''The number of offers.''\<rparr>
     = Inr (Some ''Integer'', Some Number)"
  "getBestPropertyType 3 exampleProcessor exampleLibrary offerLineage ''seller''
     \<lparr>types = [''Organization''], comment = ''The seller.''\<rparr> = Inr (None, None)"
  by code_simp+

lemma compoundFields_resolved:
  "\<forall>p \<in> set ps. \<exists>r. getBestPropertyType depth this lib th (fst p) (snd p) = Inr r \<Longrightarrow>
     compoundFields depth this lib th ps
       = Inr (List.map_filter (resolvedField depth this lib th) ps)"
proof (induction ps)
  case Nil
  show ?case by (simp add: List.map_filter_simps)
next
  case (Cons p ps)
  then obtain best ttType where
    r: "getBestPropertyType depth this lib th (fst p) (snd p) = Inr (best, ttType)"
    and rest: "compoundFields depth this lib th ps
       = Inr (List.map_filter (resolvedField depth this lib th) ps)"
    by fastforce
  show ?case
  proof (cases ttType)
    case None
    with r have "resolvedField depth this lib th p = None"
      by (simp add: resolvedField_def)
    with r rest None show ?thesis by (simp add: List.map_filter_simps)
  next
    case (Some t)
    with r have "resolvedField depth this lib th p
        = Some (fst p, t, makeArgCanonical this lib (fst p) t,
                fieldAnnotation this (fst p) (case best of Some s \<Rightarrow> s | None \<Rightarrow> []))"
      by (simp add: resolvedField_def)
    with r rest Some show ?thesis by (simp add: List.map_filter_simps)
  qed
qed

lemma compoundFields_first_error:
  "\<forall>q \<in> set before. \<exists>r. getBestPropertyType depth this lib th (fst q) (snd q) = Inr r \<Longrightarrow>
     getBestPropertyType depth this lib th (fst p) (snd p) = Inl e \<Longrightarrow>
     compoundFields depth this lib th (before @ p # after) = Inl e"
proof (induction before)
  case Nil
  then show ?case by simp
next
  case (Cons q qs)
  then obtain best ttType where
    r: "getBestPropertyType depth this lib th (fst q) (snd q) = Inr (best, ttType)"
    and rest: "compoundFields depth this lib th (qs @ p # after) = Inl e"
    by fastforce
  then show ?case by (cases ttType) simp_all
qed

lemma map_filter_empty:
  "List.map_filter f xs = [] \<longleftrightarrow> (\<forall>x \<in> set xs. f x = None)"
  by (induction xs) (auto simp: List.map_filter_simps split: option.splits)

lemma resolvedField_survives:
  "resolvedField depth this lib th p \<noteq> None \<longleftrightarrow> survives depth this lib th p"
  by (auto simp: resolvedField_def survives_def split: sum.splits option.splits)

text \<open>
  C7 (amended). Let \<open>allproperties\<close> be the properties collected for the starting type. If
  the resolution of one of them fails, \<open>makeCompoundType\<close> fails with the error of the first
  such property (for a nested struct type without fields, the error that names that nested
  type). If all of them resolve without error: when every one resolves to none it fails
  with the error that names the starting type, and when at least one resolves to a type it
  returns the compound type of that name containing exactly the surviving fields, in
  collection order, each with its resolved type, canonical phrases and annotations.
\<close>

theorem compound_fields_or_error:
  assumes "recursiveCollectProperties depth th start start [] = Inr allproperties"
  shows "(\<forall>before p after e.
            allproperties = before @ p # after
            \<and> (\<forall>q \<in> set before. \<exists>r. getBestPropertyType depth this lib th (fst q) (snd q) = Inr r)
            \<and> getBestPropertyType depth this lib th (fst p) (snd p) = Inl e
          \<longrightarrow> makeCompoundType depth this lib th start = Inl e)
    \<and> ((\<forall>p \<in> set allproperties.
            \<exists>best. getBestPropertyType depth this lib th (fst p) (snd p) = Inr (best, None))
          \<longrightarrow> makeCompoundType depth this lib th start
                = Inl (Error (''Struct type '' @ start @ '' has no fields'')))
    \<and> ((\<forall>p \<in> set allproperties.
            \<exists>r. getBestPropertyType depth this lib th (fst p) (snd p) = Inr r)
         \<and> (\<exists>p \<in> set allproperties. survives depth this lib th p)
          \<longrightarrow> makeCompoundType depth this lib th start
                = Inr (Compound start
                         (List.map_filter (resolvedField depth this lib th) allproperties))
              \<and> map fst (List.map_filter (resolvedField depth this lib th) allproperties)
                = map fst (filter (survives depth this lib th) allproperties))"
proof (intro conjI allI impI)
  fix before p after e
  assume "allproperties = before @ p # after
      \<and> (\<forall>q \<in> set before. \<exists>r. getBestPropertyType depth this lib th (fst q) (snd q) = Inr r)
      \<and> getBestPropertyType depth this lib th (fst p) (snd p) = Inl e"
  with compoundFields_first_error[of before depth this lib th p e after] assms
  show "makeCompoundType depth this lib th start = Inl e"
    by (simp add: makeCompoundType.simps)
next
  assume none: "\<forall>p \<in> set allproperties.
      \<exists>best. getBestPropertyType depth this lib th (fst p) (snd p) = Inr (best, None)"
  then have ok: "\<forall>p \<in> set allproperties.
      \<exists>r. getBestPropertyType depth this lib th (fst p) (snd p) = Inr r"
    by blast
  from none have "\<forall>p \<in> set allproperties. resolvedField depth this lib th p = None"
    by (auto simp: resolvedField_def)
  then have "List.map_filter (resolvedField depth this lib th) allproperties = []"
    by (simp only: map_filter_empty)
  with compoundFields_resolved[OF ok] assms
  show "makeCompoundType depth this lib th start
      = Inl (Error (''Struct type '' @ start @ '' has no fields''))"
    by (simp add: makeCompoundType.simps)
next
  assume h: "(\<forall>p \<in> set allproperties.
        \<exists>r. getBestPropertyType depth this lib th (fst p) (snd p) = Inr r)
      \<and> (\<exists>p \<in> set allproperties. survives depth this lib th p)"
  then obtain p where "p \<in> set allproperties" "survives depth this lib th p"
    by blast
  then have "\<not> (\<forall>p \<in> set allproperties. resolvedField depth this lib th p = None)"
    using resolvedField_survives[of depth this lib th p] by metis
  then have "List.map_filter (resolvedField depth this lib th) allproperties \<noteq> []"
    by (simp only: map_filter_empty not_False_eq_True)
  with compoundFields_resolved[of allproperties depth this lib th] h assms
  show "makeCompoundType depth this lib th start
      = Inr (Compound start (List.map_filter (resolvedField depth this lib th) allproperties))"
    by (simp add: makeCompoundType.simps)
next
  assume h: "(\<forall>p \<in> set allproperties.
        \<exists>r. getBestPropertyType depth this lib th (fst p) (snd p) = Inr r)
      \<and> (\<exists>p \<in> set allproperties. survives depth this lib th p)"
  then have f: "compoundFields depth this lib th allproperties
      = Inr (List.map_filter (resolvedField depth this lib th) allproperties)"
    using compoundFields_resolved[of allproperties depth this lib th] by blast
  from compoundFields_names[OF f]
  show "map fst (List.map_filter (resolvedField depth this lib th) allproperties)
      = map fst (filter (survives depth this lib th) allproperties)" .
qed

lemma structWithEmptyStruct_a:
  "getBestPropertyType 3 exampleProcessor exampleLibrary structWithEmptyStruct ''a''
     \<lparr>types = [''Text''], comment = ''The a.''\<rparr> = Inr (Some ''Text'', Some String)"
  by code_simp

lemma structWithEmptyStruct_S:
  "makeCompoundType 3 exampleProcessor exampleLibrary structWithEmptyStruct ''S''
     = Inl (Error ''Struct type T has no fields'')"
  by code_simp

lemma collect_S:
  "recursiveCollectProperties 3 structWithEmptyStruct ''S'' ''S'' []
     = Inr [(''a'', \<lparr>types = [''Text''], comment = ''The a.''\<rparr>),
            (''b'', \<lparr>types = [''T''], comment = ''The b.''\<rparr>)]"
  by code_simp

text \<open>
  C7 as stated fails: of the two properties collected for \<open>S\<close>, \<open>a\<close> survives resolution, yet
  \<open>makeCompoundType\<close> returns no compound type: resolving \<open>b\<close> fails for the nested struct
  type \<open>T\<close>, none of whose properties resolves, and that error, which names \<open>T\<close>, is the result.
\<close>

theorem surviving_field_without_compound_counterexample:
  "recursiveCollectProperties 3 structWithEmptyStruct ''S'' ''S'' []
     = Inr [(''a'', \<lparr>types = [''Text''], comment = ''The a.''\<rparr>),
            (''b'', \<lparr>types = [''T''], comment = ''The b.''\<rparr>)]
   \<and> getBestPropertyType 3 exampleProcessor exampleLibrary structWithEmptyStruct ''a''
        \<lparr>types = [''Text''], comment = ''The a.''\<rparr> = Inr (Some ''Text'', Some String)
   \<and> makeCompoundType 3 exampleProcessor exampleLibrary structWithEmptyStruct ''S''
        = Inl (Error ''Struct type T has no fields'')"
  by (simp add: collect_S structWithEmptyStruct_a structWithEmptyStruct_S)

lemma AggregateOffer_fields:
  "List.map_filter (resolvedField 3 exampleProcessor exampleLibrary offerLineage)
     [(''price'', \<lparr>types = [''Text''], comment = ''The lowest price.''\<rparr>),
      (''offerCount'', \<lparr>types = [''Integer''], comment = ''The number of offers.''\<rparr>),
      (''seller'', \<lparr>types = [''Organization''], comment = ''The seller.''\<rparr>)]
   = [(''price'', Currency, [(''base'', [''price''])],
        [(''org_schema_type'', String_value ''Text'')]),
      (''offerCount'', Number, [(''base'', [''offercount''])],
        [(''org_schema_type'', String_value ''Integer'')])]"
  by code_simp

theorem compound_fields_or_error_witness:
  "makeCompoundType 3 exampleProcessor exampleLibrary offerLineage ''AggregateOffer''
     = Inr (Compound ''AggregateOffer''
         [(''price'', Currency, [(''base'', [''price''])],
            [(''org_schema_type'', String_value ''Text'')]),
          (''offerCount'', Number, [(''base'', [''offercount''])],
            [(''org_schema_type'', String_value ''Integer'')])])"
proof -
  let ?all = "[(''price'', \<lparr>types = [''Text''], comment = ''The lowest price.''\<rparr>),
          (''offerCount'', \<lparr>types = [''Integer''], comment = ''The number of offers.''\<rparr>),
          (''seller'', \<lparr>types = [''Organization''], comment = ''The seller.''\<rparr>)]"
  have ok: "\<forall>p \<in> set ?all. \<exists>r. getBestPropertyType 3 exampleProcessor exampleLibrary
      offerLineage (fst p) (snd p) = Inr r"
    by (simp add: AggregateOffer_resolutions)
  have "survives 3 exampleProcessor exampleLibrary offerLineage
      (''price'', \<lparr>types = [''Text''], comment = ''The lowest price.''\<rparr>)"
    by (simp add: survives_def AggregateOffer_resolutions)
  then have ex: "\<exists>p \<in> set ?all. survives 3 exampleProcessor exampleLibrary offerLineage p"
    by simp
  from compound_fields_or_error[OF collect_AggregateOffer, of exampleProcessor exampleLibrary]
    ok ex
  have "makeCompoundType 3 exampleProcessor exampleLibrary offerLineage ''AggregateOffer''
      = Inr (Compound ''AggregateOffer''
          (List.map_filter (resolvedField 3 exampleProcessor exampleLibrary offerLineage) ?all))"
    by blast
  then show ?thesis unfolding AggregateOffer_fields .
qed

section \<open>Properties forced not to be arrays\<close>

lemma BUILTIN_not_array: "map_of BUILTIN_TYPEMAP typename = Some t \<Longrightarrow> \<not> isArray t"
  by (auto simp: BUILTIN_TYPEMAP_def isArray_def split: if_splits)

lemma OVERRIDE_not_array: "map_of PROPERTY_TYPE_OVERRIDE propname = Some t \<Longrightarrow> \<not> isArray t"
  by (auto simp: PROPERTY_TYPE_OVERRIDE_def isArray_def split: if_splits)

lemma typeToThingTalk_array:
  assumes "typeToThingTalk depth this lib th typename = Inr t" and "isArray t"
  shows "isItemListType th typename"
proof -
  from assms(1) obtain k where depth: "depth = Suc k"
    by (cases depth) (auto simp: typeToThingTalk.simps)
  show ?thesis
  proof (cases "map_of BUILTIN_TYPEMAP typename")
    case (Some b)
    with assms depth BUILTIN_not_array[OF Some] show ?thesis
      by (simp add: typeToThingTalk.simps)
  next
    case None
    with assms(1) depth obtain td where td: "map_of th typename = Some td"
      by (cases "map_of th typename") (auto simp: typeToThingTalk.simps)
    show ?thesis
    proof (rule ccontr)
      assume "\<not> isItemListType th typename"
      with td have nl: "\<not> isItemList td" by (simp add: isItemListType_def)
      with assms depth None td show False
        by (auto simp: typeToThingTalk.simps makeCompoundType.simps isArray_def
            split: if_splits sum.splits)
    qed
  qed
qed

text \<open>
  C5 (amended). For a property of the forced-not-array set, \<open>getBestPropertyType\<close> never
  wraps the resolved type in an array: the semantic type it returns is an array only when
  the chosen candidate type is itself a list-wrapper class.
\<close>

theorem forced_not_array_not_wrapped:
  assumes "propname \<in> set PROPERTY_FORCE_NOT_ARRAY"
    and "getBestPropertyType depth this lib th propname property = Inr (Some best, Some t)"
    and "isArray t"
  shows "isItemListType th best"
proof -
  from assms(1) have h: "arrayHeuristic th propname property = False"
    by (simp add: arrayHeuristic_def Let_def)
  from assms(2) obtain s where b: "bestType th (types property) None = Some (best, s)"
    by (auto simp: getBestPropertyType.simps split: if_splits option.splits sum.splits)
  show ?thesis
  proof (cases "map_of PROPERTY_TYPE_OVERRIDE propname")
    case (Some ov)
    with assms(2) b have "t = ov"
      by (auto simp: getBestPropertyType.simps split: if_splits)
    with OVERRIDE_not_array[OF Some] assms(3) show ?thesis by simp
  next
    case None
    show ?thesis
    proof (cases "best = ''QuantitativeValue''")
      case True
      with assms(2) b None have "t = quantitativeValueType propname"
        by (auto simp: getBestPropertyType.simps split: if_splits)
      with assms(3) show ?thesis by (auto simp: quantitativeValueType_def isArray_def split: if_splits)
    next
      case False
      with assms(2) b None obtain tttype where
        tt: "typeToThingTalk depth this lib th best = Inr tttype"
        and t: "t = wrapArray th propname property best tttype"
        by (auto simp: getBestPropertyType.simps split: if_splits sum.splits)
      from t h have "t = tttype" by (simp add: wrapArray_def Let_def)
      with assms(3) typeToThingTalk_array[OF tt] show ?thesis by simp
    qed
  qed
qed

lemma offers_resolution:
  "getBestPropertyType 2 exampleProcessor exampleLibrary classifiedCatalog ''offers''
     \<lparr>types = [''OfferCatalog''], comment = ''An offer of the product.''\<rparr>
   = Inr (Some ''OfferCatalog'', Some (Array (Entity ''org.schema:Thing'')))"
  by code_simp

text \<open>
  C5 as stated fails: \<open>offers\<close> is in the forced-not-array set, and with the list wrapper
  \<open>OfferCatalog\<close> as its chosen candidate it resolves to an array type.
\<close>

theorem forced_not_array_counterexample:
  "''offers'' \<in> set PROPERTY_FORCE_NOT_ARRAY
   \<and> getBestPropertyType 2 exampleProcessor exampleLibrary classifiedCatalog ''offers''
        \<lparr>types = [''OfferCatalog''], comment = ''An offer of the product.''\<rparr>
      = Inr (Some ''OfferCatalog'', Some (Array (Entity ''org.schema:Thing'')))
   \<and> isArray (Array (Entity ''org.schema:Thing''))"
  by (simp add: offers_resolution PROPERTY_FORCE_NOT_ARRAY_def isArray_def)

theorem forced_not_array_not_wrapped_witness:
  "isItemListType classifiedCatalog ''OfferCatalog''"
proof -
  have "''offers'' \<in> set PROPERTY_FORCE_NOT_ARRAY" by (simp add: PROPERTY_FORCE_NOT_ARRAY_def)
  moreover have "isArray (Array (Entity ''org.schema:Thing''))" by (simp add: isArray_def)
  ultimately show ?thesis
    using forced_not_array_not_wrapped[OF _ offers_resolution] by blast
qed

section \<open>The base fallback of canonical phrases\<close>

text \<open>
  C4 (amended). For a property without a canonical override, let \<open>processed\<close> be the record
  after all candidate phrases have been processed. If the always-generate-base-form flag
  is set and \<open>processed\<close> is empty, \<open>makeArgCanonical\<close> returns the record whose only content
  is the raw identifier as a single \<open>base\<close> template. More generally, if the flag is set and
  \<open>processed\<close> has no \<open>base\<close> key, the fallback entry is added after the keys already there;
  if \<open>base\<close> was populated, or the flag is not set, nothing is added.
\<close>

theorem base_fallback_when_base_missing:
  assumes "map_of PROPERTY_CANONICAL_OVERRIDE name = None"
    and "manual this \<longrightarrow> map_of MANUAL_PROPERTY_CANONICAL_OVERRIDE name = None"
  shows "(always_base_canonical this \<and> addCandidates lib (candidatePhrases this lib name) ptype = []
            \<longrightarrow> makeArgCanonical this lib name ptype = [(''base'', [name])])
    \<and> (always_base_canonical this
          \<and> map_of (addCandidates lib (candidatePhrases this lib name) ptype) ''base'' = None
            \<longrightarrow> makeArgCanonical this lib name ptype
                = addCandidates lib (candidatePhrases this lib name) ptype @ [(''base'', [name])])
    \<and> (map_of (addCandidates lib (candidatePhrases this lib name) ptype) ''base'' \<noteq> None
          \<or> \<not> always_base_canonical this
            \<longrightarrow> makeArgCanonical this lib name ptype
                = addCandidates lib (candidatePhrases this lib name) ptype)"
proof -
  from assms(2) have
    "(if manual this then map_of MANUAL_PROPERTY_CANONICAL_OVERRIDE name else None) = None"
    by simp
  with assms(1) show ?thesis
    by (auto simp: makeArgCanonical_def Let_def setKey_def)
qed

text \<open>
  C4 as stated fails: for the label \<open>is part of\<close> only the \<open>reverse_property\<close> role is
  populated, and the \<open>base\<close> fallback is added all the same.
\<close>

theorem fallback_added_beside_other_role_counterexample:
  "addCandidates exampleLibrary (candidatePhrases labelledProcessor exampleLibrary ''isPartOf'')
      (Entity ''org.schema:CreativeWork'')
     = [(''reverse_property'', [''part of''])]
   \<and> makeArgCanonical labelledProcessor exampleLibrary ''isPartOf''
        (Entity ''org.schema:CreativeWork'')
     = [(''reverse_property'', [''part of'']), (''base'', [''isPartOf''])]"
  by code_simp

theorem base_fallback_when_base_missing_witness:
  "makeArgCanonical exampleProcessor exampleLibrary ''gtin13'' String = [(''base'', [''gtin13''])]"
proof -
  have a: "map_of PROPERTY_CANONICAL_OVERRIDE ''gtin13'' = None"
    by code_simp
  have b: "manual exampleProcessor \<longrightarrow> map_of MANUAL_PROPERTY_CANONICAL_OVERRIDE ''gtin13'' = None"
    by (simp add: exampleProcessor_def)
  have c: "always_base_canonical exampleProcessor
      \<and> addCandidates exampleLibrary (candidatePhrases exampleProcessor exampleLibrary ''gtin13'')
          String = []"
    by code_simp
  from base_fallback_when_base_missing[OF a b, of exampleLibrary String] c show ?thesis
    by blast
qed

section \<open>Reserved names\<close>

lemma propertyArguments_names:
  "propertyArguments depth this lib th typename ps = Inr args \<Longrightarrow>
     map arg_name args
       = map (\<lambda>p. if fst p \<in> set KEYWORDS then ''_'' @ fst p else fst p)
           (filter (survives depth this lib th) ps)"
proof (induction ps arbitrary: args)
  case Nil
  then show ?case by simp
next
  case (Cons p ps)
  from Cons.prems obtain best ttType where
    r: "getBestPropertyType depth this lib th (fst p) (snd p) = Inr (best, ttType)"
    by (cases "getBestPropertyType depth this lib th (fst p) (snd p)") auto
  show ?case
  proof (cases ttType)
    case None
    with r Cons show ?thesis by (simp add: survives_def)
  next
    case (Some t)
    with r Cons.prems obtain rest where
      rest: "propertyArguments depth this lib th typename ps = Inr rest"
      by (cases "propertyArguments depth this lib th typename ps") (auto simp: Let_def)
    with r Some Cons.prems have
      "map arg_name args
         = (if fst p \<in> set KEYWORDS then ''_'' @ fst p else fst p) # map arg_name rest"
      by (auto simp: Let_def split: prod.splits)
    with Cons.IH[OF rest] r Some show ?thesis by (simp add: survives_def)
  qed
qed

lemma setQuery_member:
  "(k, fn) \<in> set (setQuery key f queries) \<Longrightarrow> (k, fn) = (key, f) \<or> (k, fn) \<in> set queries"
  by (auto simp: setQuery_def split: if_splits)

lemma emitQueries_member:
  "emitQueries depth this lib th order queries = Inr queries' \<Longrightarrow> (k, fn) \<in> set queries' \<Longrightarrow>
     (k, fn) \<in> set queries
     \<or> (\<exists>typename td. typename \<in> set order \<and> map_of th typename = Some td
           \<and> queryDefinition depth this lib th typename td = Inr fn \<and> k = fn_name fn)"
proof (induction order arbitrary: queries)
  case Nil
  then show ?case by simp
next
  case (Cons typename rest)
  from Cons.prems(1) obtain td where td: "map_of th typename = Some td"
    by (cases "map_of th typename") auto
  show ?case
  proof (cases "typename = ''ItemList'' \<or> isItemList td")
    case True
    with Cons.prems td have "emitQueries depth this lib th rest queries = Inr queries'"
      by auto
    from Cons.IH[OF this Cons.prems(2)] show ?thesis by auto
  next
    case False
    with Cons.prems(1) td obtain f where
      f: "queryDefinition depth this lib th typename td = Inr f"
      and r: "emitQueries depth this lib th rest (setQuery (fn_name f) f queries) = Inr queries'"
      by (cases "queryDefinition depth this lib th typename td") auto
    from Cons.IH[OF r Cons.prems(2)] show ?thesis
    proof
      assume "(k, fn) \<in> set (setQuery (fn_name f) f queries)"
      from setQuery_member[OF this] td f show ?thesis by auto
    next
      assume "\<exists>typename td. typename \<in> set rest \<and> map_of th typename = Some td
           \<and> queryDefinition depth this lib th typename td = Inr fn \<and> k = fn_name fn"
      then show ?thesis by auto
    qed
  qed
qed

text \<open>
  Every entry of the emitted \<open>queries\<close> is the definition of a type of the order, stored
  under the name of the definition. That name is the type name with an underscore in
  front if it is a reserved keyword, and the type name itself otherwise; after \<open>id\<close> and
  \<open>name\<close>, the arguments are the properties that resolve to a type, each named with an
  underscore in front if its name is a reserved keyword and unchanged otherwise.
\<close>

lemma query_and_argument_names_prefixed:
  "(emitQueries depth this lib th order [] = Inr queries \<and> (k, fn) \<in> set queries \<longrightarrow>
      (\<exists>typename td. typename \<in> set order \<and> map_of th typename = Some td
         \<and> queryDefinition depth this lib th typename td = Inr fn \<and> k = fn_name fn))
   \<and> (queryDefinition depth this lib th typename td = Inr fn \<longrightarrow>
        fn_name fn = (if typename \<in> set KEYWORDS then ''_'' @ typename else typename)
        \<and> map arg_name (fn_args fn)
            = [''id''] @ (if typename \<noteq> ''Thing'' then [''name''] else [])
              @ map (\<lambda>p. if fst p \<in> set KEYWORDS then ''_'' @ fst p else fst p)
                  (filter (survives depth (this\<lparr>hasGeo := map_of (properties td) ''geo'' \<noteq> None\<rparr>)
                             lib th)
                     (properties td)))"
proof (intro conjI impI)
  assume "emitQueries depth this lib th order [] = Inr queries \<and> (k, fn) \<in> set queries"
  with emitQueries_member[of depth this lib th order "[]" queries k fn]
  show "\<exists>typename td. typename \<in> set order \<and> map_of th typename = Some td
         \<and> queryDefinition depth this lib th typename td = Inr fn \<and> k = fn_name fn"
    by simp
next
  assume q: "queryDefinition depth this lib th typename td = Inr fn"
  then show "fn_name fn = (if typename \<in> set KEYWORDS then ''_'' @ typename else typename)"
    by (auto simp: queryDefinition_def Let_def split: sum.splits)
next
  assume q: "queryDefinition depth this lib th typename td = Inr fn"
  let ?geo = "this\<lparr>hasGeo := map_of (properties td) ''geo'' \<noteq> None\<rparr>"
  from q obtain args where
    a: "propertyArguments depth ?geo lib th typename (properties td) = Inr args"
    by (cases "propertyArguments depth ?geo lib th typename (properties td)")
       (auto simp: queryDefinition_def)
  with q have "fn_args fn = [idArgument this typename]
      @ (if typename \<noteq> ''Thing'' then [nameArgument this typename] else []) @ args"
    by (auto simp: queryDefinition_def Let_def)
  moreover have "arg_name (idArgument this typename) = ''id''"
    by (simp add: idArgument_def split: prod.splits)
  moreover have "arg_name (nameArgument this typename) = ''name''"
    by (simp add: nameArgument_def split: prod.splits)
  ultimately show "map arg_name (fn_args fn)
      = [''id''] @ (if typename \<noteq> ''Thing'' then [''name''] else [])
        @ map (\<lambda>p. if fst p \<in> set KEYWORDS then ''_'' @ fst p else fst p)
            (filter (survives depth ?geo lib th) (properties td))"
    using propertyArguments_names[OF a] by simp
qed

text \<open>
  C10. The names of the emitted queries and of their arguments are prefixed when reserved,
  but the fields of a compound type are emitted under the property names as they are. In
  \<open>rawPlace\<close> both \<open>Place\<close> and the struct type \<open>PostalAddress\<close> have a property named \<open>of\<close>:
  \<open>run\<close> emits that of \<open>Place\<close> as the argument \<open>_of\<close>, and that of \<open>PostalAddress\<close> as the
  field \<open>of\<close> of the compound type of the argument \<open>address\<close>.
\<close>

theorem keyword_field_of_compound_unprefixed:
  "(case run 5 exampleProcessor exampleLibrary [] rawPlace of
      Inl err \<Rightarrow> Inl err
    | Inr queries \<Rightarrow> Inr (emittedNames queries))
   = Inr [(''Thing'', [(''id'', [])]),
          (''Place'', [(''id'', []), (''name'', []), (''address'', [''of'']), (''_of'', [])])]
   \<and> ''of'' \<in> set KEYWORDS"
  by code_simp

end
